theory Spec2Isabelle
  imports Complex_Main "HOL-Library.Word" "HOL-Library.Log_Nat"
begin

section \<open>Floating-point numbers of the program\<close>

text \<open>
  The synthesizer computes with Python floats (IEEE 754 binary64) and with numpy
  \<^verbatim>\<open>float32\<close> arrays. A finite floating-point number is a rational; an operation
  computes the exact rational result and rounds it to the nearest number of the format,
  ties to even. Infinities and NaN are values of their own. The sign of a zero is not
  kept: no operation of the program can observe it (there is no division by a computed
  value, and \<^verbatim>\<open>%\<close> gives its zero the sign of the divisor).
\<close>

datatype fpval = Fin rat | PInf | NInf | NaN

text \<open>\<open>ilog2 x\<close> is the exponent of the binade of a positive \<open>x\<close>: \<open>2 ^ ilog2 x \<le> x < 2 ^ (ilog2 x + 1)\<close>.\<close>

definition ilog2 :: "rat \<Rightarrow> int" where
  "ilog2 x = (let (p, q) = quotient_of x; d = bitlen p - bitlen q
              in if 2 powi d \<le> x then d else d - 1)"

definition round_half_even :: "rat \<Rightarrow> int" where
  "round_half_even y =
     (let n = \<lfloor>y\<rfloor>; d = y - of_int n
      in if d < 1 / 2 then n else if 1 / 2 < d then n + 1 else if even n then n else n + 1)"

text \<open>
  Rounding to a binary format with \<open>p\<close> significant bits, least normal exponent \<open>emin\<close>
  and greatest exponent \<open>emax\<close>: below \<open>2 ^ emin\<close> the spacing stays that of the least
  binade (subnormal numbers); a rounded magnitude of \<open>2 ^ (emax + 1)\<close> or more overflows
  to an infinity.
\<close>

definition round_to :: "int \<Rightarrow> int \<Rightarrow> int \<Rightarrow> rat \<Rightarrow> fpval" where
  "round_to p emin emax x =
     (if x = 0 then Fin 0
      else let e = max (ilog2 \<bar>x\<bar>) emin;
               q = 2 powi (e - p + 1);
               r = of_int (round_half_even (x / q)) * q
           in if 2 powi (emax + 1) \<le> \<bar>r\<bar> then (if 0 < r then PInf else NInf) else Fin r)"

definition f64 :: "rat \<Rightarrow> fpval" where
  "f64 = round_to 53 (- 1022) 1023"

definition f32 :: "rat \<Rightarrow> fpval" where
  "f32 = round_to 24 (- 126) 127"

definition fp_neg :: "fpval \<Rightarrow> bool" where
  "fp_neg x = (case x of Fin a \<Rightarrow> a < 0 | NInf \<Rightarrow> True | _ \<Rightarrow> False)"

definition fp_uminus :: "fpval \<Rightarrow> fpval" where
  "fp_uminus x = (case x of Fin a \<Rightarrow> Fin (- a) | PInf \<Rightarrow> NInf | NInf \<Rightarrow> PInf | NaN \<Rightarrow> NaN)"

fun fp_add :: "(rat \<Rightarrow> fpval) \<Rightarrow> fpval \<Rightarrow> fpval \<Rightarrow> fpval" where
  "fp_add rnd NaN y = NaN"
| "fp_add rnd x NaN = NaN"
| "fp_add rnd (Fin a) (Fin b) = rnd (a + b)"
| "fp_add rnd PInf NInf = NaN"
| "fp_add rnd NInf PInf = NaN"
| "fp_add rnd PInf y = PInf"
| "fp_add rnd NInf y = NInf"
| "fp_add rnd x PInf = PInf"
| "fp_add rnd x NInf = NInf"

definition fp_mul :: "(rat \<Rightarrow> fpval) \<Rightarrow> fpval \<Rightarrow> fpval \<Rightarrow> fpval" where
  "fp_mul rnd x y =
     (if x = NaN \<or> y = NaN then NaN
      else case (x, y) of
        (Fin a, Fin b) \<Rightarrow> rnd (a * b)
      | _ \<Rightarrow> if x = Fin 0 \<or> y = Fin 0 then NaN
             else if fp_neg x \<noteq> fp_neg y then NInf else PInf)"

text \<open>
  Division. The program divides only by the constant \<^verbatim>\<open>SAMPLE_RATE\<close>, so the divisor
  is never zero; Python would raise \<^verbatim>\<open>ZeroDivisionError\<close> there, written here as NaN.
\<close>

definition fp_div :: "(rat \<Rightarrow> fpval) \<Rightarrow> fpval \<Rightarrow> fpval \<Rightarrow> fpval" where
  "fp_div rnd x y =
     (if x = NaN \<or> y = NaN then NaN
      else case (x, y) of
        (Fin a, Fin b) \<Rightarrow> if b = 0 then NaN else rnd (a / b)
      | (Fin a, _) \<Rightarrow> Fin 0
      | (_, Fin b) \<Rightarrow> if fp_neg x \<noteq> (b < 0) then NInf else PInf
      | _ \<Rightarrow> NaN)"

text \<open>
  The \<^verbatim>\<open>%\<close> of Python floats and of numpy \<^verbatim>\<open>float64\<close>: C's \<^verbatim>\<open>fmod\<close>, which is
  exact and has the sign of the dividend, then one (rounded) addition of the divisor
  when the signs differ. The divisor of the program is the constant \<^verbatim>\<open>2 * np.pi\<close>;
  a zero divisor (an exception in Python, NaN in numpy) is written as NaN.
\<close>

definition c_trunc :: "rat \<Rightarrow> int" where
  "c_trunc a = (if 0 \<le> a then \<lfloor>a\<rfloor> else - \<lfloor>- a\<rfloor>)"

definition c_fmod :: "rat \<Rightarrow> rat \<Rightarrow> rat" where
  "c_fmod a b = a - b * of_int (c_trunc (a / b))"

definition fp_mod :: "(rat \<Rightarrow> fpval) \<Rightarrow> fpval \<Rightarrow> fpval \<Rightarrow> fpval" where
  "fp_mod rnd x y =
     (case (x, y) of
        (Fin a, Fin b) \<Rightarrow>
          if b = 0 then NaN
          else let m = c_fmod a b
               in if m \<noteq> 0 \<and> ((b < 0) \<noteq> (m < 0)) then rnd (m + b) else Fin m
      | (Fin a, PInf) \<Rightarrow> if a < 0 then PInf else Fin a
      | (Fin a, NInf) \<Rightarrow> if 0 < a then NInf else Fin a
      | _ \<Rightarrow> NaN)"

fun fp_less :: "fpval \<Rightarrow> fpval \<Rightarrow> bool" where
  "fp_less NaN y = False"
| "fp_less x NaN = False"
| "fp_less (Fin a) (Fin b) = (a < b)"
| "fp_less x NInf = False"
| "fp_less PInf y = False"
| "fp_less NInf y = True"
| "fp_less x PInf = True"

text \<open>A Python \<^verbatim>\<open>int\<close> used in float arithmetic is converted to the nearest float first.\<close>

definition f64_of_int :: "int \<Rightarrow> fpval" where
  "f64_of_int i = f64 (of_int i)"

definition f32_of_int :: "int \<Rightarrow> fpval" where
  "f32_of_int i = f32 (of_int i)"

text \<open>A decimal literal of the source denotes the float nearest to it.\<close>

definition py_float :: "rat \<Rightarrow> fpval" where
  "py_float d = f64 d"

text \<open>\<^verbatim>\<open>np.pi\<close> is the float \<^verbatim>\<open>0x400921FB54442D18\<close>.\<close>

definition np_pi :: fpval where
  "np_pi = Fin (884279719003555 / 281474976710656)"

section \<open>Configuration and state\<close>

definition CHANNEL1_NOTES :: "string \<rightharpoonup> fpval" where
  "CHANNEL1_NOTES = map_of
     [(''a'', py_float (26163 / 100)), (''s'', py_float (29366 / 100)),
      (''d'', py_float (32963 / 100)), (''f'', py_float (34923 / 100)),
      (''g'', py_float 392), (''h'', py_float 440), (''j'', py_float (49388 / 100))]"

definition CHANNEL2_NOTES :: "string \<rightharpoonup> fpval" where
  "CHANNEL2_NOTES = map_of
     [(''z'', py_float (52325 / 100)), (''x'', py_float (58733 / 100)),
      (''c'', py_float (65926 / 100)), (''v'', py_float (69846 / 100)),
      (''b'', py_float (78399 / 100)), (''n'', py_float 880), (''m'', py_float (98777 / 100))]"

definition SAMPLE_RATE :: int where
  "SAMPLE_RATE = 44100"

definition AMPLITUDE :: fpval where
  "AMPLITUDE = py_float (1 / 2)"

text \<open>
  \<^verbatim>\<open>ChannelState\<close>. The lock is not a field of the model: every handler and the
  render callback are atomic steps on the state.
\<close>

record channel_state =
  active :: bool
  frequency :: fpval
  phase :: fpval

definition ChannelState :: channel_state where
  "ChannelState = \<lparr>active = False, frequency = py_float 0, phase = py_float 0\<rparr>"

text \<open>The module's globals.\<close>

record synth =
  CH1 :: channel_state
  CH2 :: channel_state
  WAV_BUFFER :: "fpval list"
  QUIT_FLAG :: bool

definition initial :: synth where
  "initial = \<lparr>CH1 = ChannelState, CH2 = ChannelState, WAV_BUFFER = [], QUIT_FLAG = False\<rparr>"

section \<open>Oscillator\<close>

definition arange :: "nat \<Rightarrow> int list" where
  "arange n = map int [0..<n]"

definition generate_square_wave :: "fpval \<Rightarrow> fpval \<Rightarrow> nat \<Rightarrow> fpval list \<times> fpval" where
  "generate_square_wave freq ph n_samples =
     (let phase_increment =
            fp_div f64 (fp_mul f64 (fp_mul f64 freq (f64_of_int 2)) np_pi) (f64_of_int SAMPLE_RATE);
          phases = map (\<lambda>x. fp_mod f64 (fp_add f64 ph x) (fp_mul f64 (f64_of_int 2) np_pi))
                     (map (\<lambda>i. fp_mul f64 (f64_of_int i) phase_increment) (arange n_samples));
          wave = map (\<lambda>p. if fp_less p np_pi then AMPLITUDE else fp_uminus AMPLITUDE) phases;
          new_phase = fp_mod f64 (fp_add f64 ph (fp_mul f64 (f64_of_int (int n_samples)) phase_increment))
                        (fp_mul f64 (f64_of_int 2) np_pi)
      in (wave, new_phase))"

section \<open>Render callback\<close>

text \<open>
  \<^verbatim>\<open>output += wave\<close> adds a \<^verbatim>\<open>float64\<close> array into a \<^verbatim>\<open>float32\<close> one: numpy adds
  in double precision and rounds the sum to \<^verbatim>\<open>float32\<close>.
\<close>

definition to_f32 :: "fpval \<Rightarrow> fpval" where
  "to_f32 x = (case x of Fin a \<Rightarrow> f32 a | _ \<Rightarrow> x)"

definition iadd_f32 :: "fpval \<Rightarrow> fpval \<Rightarrow> fpval" where
  "iadd_f32 out w = to_f32 (fp_add f64 out w)"

text \<open>\<^verbatim>\<open>np.clip\<close> on floats: \<open>min (max x lo) hi\<close>, where a NaN stays a NaN.\<close>

definition np_clip :: "fpval \<Rightarrow> fpval \<Rightarrow> fpval \<Rightarrow> fpval" where
  "np_clip x lo hi =
     (let t = (if x = NaN \<or> fp_less lo x then x else lo)
      in if t = NaN \<or> fp_less t hi then t else hi)"

text \<open>One channel's part of the callback: the block so far and the channel, both updated.\<close>

definition process_channel :: "nat \<Rightarrow> fpval list \<Rightarrow> channel_state \<Rightarrow> fpval list \<times> channel_state" where
  "process_channel frames output ch =
     (if active ch \<and> fp_less (f64_of_int 0) (frequency ch)
      then (let (wave, new_phase) = generate_square_wave (frequency ch) (phase ch) frames
            in (map2 iadd_f32 output wave, ch\<lparr>phase := new_phase\<rparr>))
      else (output, ch))"

text \<open>
  \<^verbatim>\<open>audio_callback(outdata, frames, time, status)\<close>: the result is the block written to
  \<^verbatim>\<open>outdata\<close> and the new globals. Printing \<^verbatim>\<open>status\<close> changes no state.
\<close>

definition audio_callback :: "nat \<Rightarrow> synth \<Rightarrow> fpval list \<times> synth" where
  "audio_callback frames s =
     (let output = replicate frames (f32 0);
          (output, ch1) = process_channel frames output (CH1 s);
          (output, ch2) = process_channel frames output (CH2 s);
          output = map (\<lambda>x. np_clip x (py_float (- 1)) (py_float 1)) output
      in (output, s\<lparr>CH1 := ch1, CH2 := ch2, WAV_BUFFER := WAV_BUFFER s @ output\<rparr>))"

section \<open>Event handlers\<close>

subsection \<open>gb.py: one hook per channel\<close>

text \<open>An event of the \<^verbatim>\<open>keyboard\<close> library; the name of an unknown key is \<^verbatim>\<open>None\<close>.\<close>

record keyboard_event =
  event_type :: string
  name :: "string option"

definition dict_get :: "(string \<rightharpoonup> fpval) \<Rightarrow> string option \<Rightarrow> fpval option" where
  "dict_get d k = (case k of None \<Rightarrow> None | Some n \<Rightarrow> d n)"

definition handle_key_event :: "channel_state \<Rightarrow> (string \<rightharpoonup> fpval) \<Rightarrow> keyboard_event \<Rightarrow> channel_state" where
  "handle_key_event channel notes_dict event =
     (if event_type event = ''down'' then
        (case dict_get notes_dict (name event) of
           Some freq \<Rightarrow> channel\<lparr>active := True, frequency := freq\<rparr>
         | None \<Rightarrow> channel)
      else if event_type event = ''up'' then
        (if dict_get notes_dict (name event) \<noteq> None then channel\<lparr>active := False\<rparr> else channel)
      else channel)"

text \<open>Both hooks see every event.\<close>

definition hooks :: "keyboard_event \<Rightarrow> synth \<Rightarrow> synth" where
  "hooks e s = s\<lparr>CH1 := handle_key_event (CH1 s) CHANNEL1_NOTES e,
                 CH2 := handle_key_event (CH2 s) CHANNEL2_NOTES e\<rparr>"

subsection \<open>2gb.py: pynput listener\<close>

text \<open>
  A \<^verbatim>\<open>pynput\<close> key is a \<^verbatim>\<open>KeyCode\<close>, whose \<^verbatim>\<open>char\<close> may be \<^verbatim>\<open>None\<close>, or a special
  \<^verbatim>\<open>Key\<close>, which has no \<^verbatim>\<open>char\<close> attribute.
\<close>

datatype key = KeyCode "string option" | Key string

text \<open>\<^verbatim>\<open>str.lower\<close> on the characters of the model, which are ASCII.\<close>

definition lower_char :: "char \<Rightarrow> char" where
  "lower_char c = (if 65 \<le> (of_char c :: nat) \<and> (of_char c :: nat) \<le> 90
                   then char_of (of_char c + 32 :: nat) else c)"

definition lower :: "string \<Rightarrow> string" where
  "lower = map lower_char"

text \<open>
  \<^verbatim>\<open>key.char.lower()\<close> raises \<^verbatim>\<open>AttributeError\<close> when \<^verbatim>\<open>char\<close> is \<^verbatim>\<open>None\<close>; the
  handler of \<^verbatim>\<open>on_press\<close> then compares the key with \<^verbatim>\<open>Key.esc\<close>, which a
  \<^verbatim>\<open>KeyCode\<close> never equals.
\<close>

definition on_press :: "key \<Rightarrow> synth \<Rightarrow> synth" where
  "on_press k s =
     (case k of
        KeyCode (Some c) \<Rightarrow>
          (let key_char = lower c in
           if CHANNEL1_NOTES key_char \<noteq> None then
             s\<lparr>CH1 := (CH1 s)\<lparr>active := True, frequency := the (CHANNEL1_NOTES key_char)\<rparr>\<rparr>
           else if CHANNEL2_NOTES key_char \<noteq> None then
             s\<lparr>CH2 := (CH2 s)\<lparr>active := True, frequency := the (CHANNEL2_NOTES key_char)\<rparr>\<rparr>
           else if key_char = ''q'' then s\<lparr>QUIT_FLAG := True\<rparr>
           else s)
      | KeyCode None \<Rightarrow> (if k = Key ''esc'' then s\<lparr>QUIT_FLAG := True\<rparr> else s)
      | Key n \<Rightarrow> s)"

text \<open>\<^verbatim>\<open>on_release\<close> returns \<^verbatim>\<open>not QUIT_FLAG\<close> to the listener.\<close>

definition on_release :: "key \<Rightarrow> synth \<Rightarrow> bool \<times> synth" where
  "on_release k s =
     (let s' = (case k of
                  KeyCode (Some c) \<Rightarrow>
                    (let key_char = lower c in
                     if CHANNEL1_NOTES key_char \<noteq> None then s\<lparr>CH1 := (CH1 s)\<lparr>active := False\<rparr>\<rparr>
                     else if CHANNEL2_NOTES key_char \<noteq> None then s\<lparr>CH2 := (CH2 s)\<lparr>active := False\<rparr>\<rparr>
                     else s)
                | KeyCode None \<Rightarrow> s
                | Key n \<Rightarrow> s)
      in (\<not> QUIT_FLAG s', s'))"

section \<open>Flush at shutdown\<close>

text \<open>
  \<^verbatim>\<open>astype(np.int16)\<close> is C's conversion of a float to a 16-bit integer: it truncates
  towards zero (\<open>c_trunc\<close>), and C leaves it undefined for NaN, the infinities and values whose
  truncation is not a 16-bit integer (\<open>None\<close>).
\<close>

definition astype_int16 :: "fpval \<Rightarrow> 16 word option" where
  "astype_int16 x =
     (case x of
        Fin a \<Rightarrow> if - 32768 \<le> c_trunc a \<and> c_trunc a \<le> 32767 then Some (word_of_int (c_trunc a)) else None
      | _ \<Rightarrow> None)"

text \<open>The file handed to \<^verbatim>\<open>wav.write\<close>: a one-dimensional sample array is a mono file.\<close>

record wav_file =
  filename :: string
  rate :: int
  data :: "16 word option list"

text \<open>The result is the file written, if any, and the line printed.\<close>

definition flush :: "fpval list \<Rightarrow> wav_file option \<times> string" where
  "flush buffer =
     (if buffer \<noteq> [] then
        (let audio_data = map to_f32 buffer;
             audio_data = map (\<lambda>x. np_clip x (py_float (- 1)) (py_float 1)) audio_data;
             audio_data = map (\<lambda>x. astype_int16 (fp_mul f32 x (f32_of_int 32767))) audio_data
         in (Some \<lparr>filename = ''gameboy_audio.wav'', rate = SAMPLE_RATE, data = audio_data\<rparr>,
             ''Audio saved to gameboy_audio.wav''))
      else (None, ''No audio data recorded''))"

section \<open>Sessions and properties\<close>

text \<open>
  The clip as the specification words it, on the numbers a sample can be: a finite number is
  brought into \<open>[-1, 1]\<close>, \<open>+\<infinity>\<close> becomes 1 and \<open>-\<infinity>\<close> becomes -1. A NaN has no clipped value.
\<close>

definition spec_clip :: "fpval \<Rightarrow> rat option" where
  "spec_clip x = (case x of Fin a \<Rightarrow> Some (max (- 1) (min 1 a)) | PInf \<Rightarrow> Some 1 | NInf \<Rightarrow> Some (- 1) | NaN \<Rightarrow> None)"

text \<open>A sample is in range when it is a finite number of \<open>[-1, 1]\<close>.\<close>

definition in_unit_range :: "fpval \<Rightarrow> bool" where
  "in_unit_range x = (case x of Fin r \<Rightarrow> - 1 \<le> r \<and> r \<le> 1 | _ \<Rightarrow> False)"

definition key_down :: "string \<Rightarrow> keyboard_event" where
  "key_down k = \<lparr>event_type = ''down'', name = Some k\<rparr>"

definition key_up :: "string \<Rightarrow> keyboard_event" where
  "key_up k = \<lparr>event_type = ''up'', name = Some k\<rparr>"

text \<open>A \<^verbatim>\<open>pynput\<close> key that is in neither note map.\<close>

definition unmapped_key :: "key \<Rightarrow> bool" where
  "unmapped_key k =
     (case k of
        KeyCode (Some c) \<Rightarrow> CHANNEL1_NOTES (lower c) = None \<and> CHANNEL2_NOTES (lower c) = None
      | _ \<Rightarrow> True)"

text \<open>What one channel adds to a silent block.\<close>

definition channel_block :: "nat \<Rightarrow> channel_state \<Rightarrow> fpval list" where
  "channel_block frames ch = fst (process_channel frames (replicate frames (f32 0)) ch)"

text \<open>
  A session is a sequence of steps on the globals: render callbacks with their block
  lengths, events of the \<^verbatim>\<open>keyboard\<close> hooks (gb.py), presses and releases of the
  \<^verbatim>\<open>pynput\<close> listener (2gb.py).
\<close>

datatype step = Callback nat | KeyEvent keyboard_event | Press key | Release key

fun run :: "step list \<Rightarrow> synth \<Rightarrow> synth" where
  "run [] s = s"
| "run (Callback frames # rest) s = run rest (snd (audio_callback frames s))"
| "run (KeyEvent e # rest) s = run rest (hooks e s)"
| "run (Press k # rest) s = run rest (on_press k s)"
| "run (Release k # rest) s = run rest (snd (on_release k s))"

fun rendered :: "step list \<Rightarrow> nat" where
  "rendered [] = 0"
| "rendered (Callback frames # rest) = frames + rendered rest"
| "rendered (x # rest) = rendered rest"

text \<open>
  The oscillator in the terms of its contract: the phase increment per sample
  \<open>2\<pi> f / sampleRate\<close>, the instantaneous phase \<open>(phase + i \<Delta>) mod 2\<pi>\<close> of sample \<open>i\<close>, and
  the sample, \<open>+AMPLITUDE\<close> below \<open>\<pi>\<close> and \<open>-AMPLITUDE\<close> otherwise; every operation is the
  float operation, in the order in which \<^verbatim>\<open>generate_square_wave\<close> applies it.
\<close>

definition phase_increment :: "fpval \<Rightarrow> fpval" where
  "phase_increment freq =
     fp_div f64 (fp_mul f64 (fp_mul f64 freq (f64_of_int 2)) np_pi) (f64_of_int SAMPLE_RATE)"

text \<open>The phase of sample \<open>i\<close> before the reduction modulo \<open>2\<pi>\<close>: the element \<open>i\<close> of
  \<^verbatim>\<open>phase + np.arange(n_samples) * phase_increment\<close>.\<close>

definition unwrapped_phase :: "fpval \<Rightarrow> fpval \<Rightarrow> int \<Rightarrow> fpval" where
  "unwrapped_phase freq ph i = fp_add f64 ph (fp_mul f64 (f64_of_int i) (phase_increment freq))"

definition two_pi :: fpval where
  "two_pi = fp_mul f64 (f64_of_int 2) np_pi"

definition instantaneous_phase :: "fpval \<Rightarrow> fpval \<Rightarrow> int \<Rightarrow> fpval" where
  "instantaneous_phase freq ph i =
     fp_mod f64 (fp_add f64 ph (fp_mul f64 (f64_of_int i) (phase_increment freq))) two_pi"

definition square_sample :: "fpval \<Rightarrow> fpval \<Rightarrow> int \<Rightarrow> fpval" where
  "square_sample freq ph i =
     (if fp_less (instantaneous_phase freq ph i) np_pi then AMPLITUDE else fp_uminus AMPLITUDE)"

text \<open>
  Rendering a sequence of blocks with the returned phase of each call handed to the next:
  the concatenated samples and the last phase.
\<close>

fun render_blocks :: "fpval \<Rightarrow> fpval \<Rightarrow> nat list \<Rightarrow> fpval list \<times> fpval" where
  "render_blocks freq ph [] = ([], ph)"
| "render_blocks freq ph (n # ns) =
     (let (wave, new_phase) = generate_square_wave freq ph n;
          (rest, last_phase) = render_blocks freq new_phase ns
      in (wave @ rest, last_phase))"

text \<open>A float that is not negative: a finite number \<open>\<ge> 0\<close> or \<open>+\<infinity>\<close>.\<close>

definition fp_nonneg :: "fpval \<Rightarrow> bool" where
  "fp_nonneg x = (case x of Fin r \<Rightarrow> 0 \<le> r | PInf \<Rightarrow> True | _ \<Rightarrow> False)"

section \<open>Rounding\<close>

text \<open>The exponent function, and how a rounding is evaluated from the binade of its argument.\<close>

lemma bitlen_powi_bounds:
  assumes "0 < p"
  shows "2 powi (bitlen p - 1) \<le> (of_int p :: rat)" "(of_int p :: rat) < 2 powi bitlen p"
proof -
  have b1: "1 \<le> bitlen p" using assms by (auto simp: bitlen_alt_def)
  from bitlen_bounds[OF assms]
  have lo: "2 ^ nat (bitlen p - 1) \<le> p" and hi: "p < 2 ^ nat (bitlen p)" by auto
  have "(of_int (2 ^ nat (bitlen p - 1)) :: rat) \<le> of_int p"
    using lo by (simp only: of_int_le_iff)
  then show "2 powi (bitlen p - 1) \<le> (of_int p :: rat)"
    using b1 by (simp add: power_int_def)
  have "(of_int p :: rat) < of_int (2 ^ nat (bitlen p))"
    using hi by (simp only: of_int_less_iff)
  then show "(of_int p :: rat) < 2 powi bitlen p"
    using b1 by (simp add: power_int_def)
qed

lemma ilog2_bounds:
  assumes "0 < x"
  shows "2 powi ilog2 x \<le> x \<and> x < 2 powi (ilog2 x + 1)"
proof -
  obtain p q where pq: "quotient_of x = (p, q)" by (cases "quotient_of x")
  have q: "0 < q" using pq by (rule quotient_of_denom_pos)
  have x: "x = of_int p / of_int q" using pq by (rule quotient_of_div)
  have p: "0 < p" using assms q x by (simp add: zero_less_divide_iff)
  define d where "d = bitlen p - bitlen q"
  note bp = bitlen_powi_bounds[OF p] and bq = bitlen_powi_bounds[OF q]
  have qr: "0 < (of_int q :: rat)" using q by simp
  have "2 powi (d - 1) * of_int q < (2::rat) powi (d - 1) * 2 powi bitlen q"
    using bq(2) by (simp add: mult_strict_left_mono)
  also have "\<dots> = 2 powi (bitlen p - 1)"
    by (simp add: d_def power_int_add[symmetric])
  also have "\<dots> \<le> of_int p" by (rule bp(1))
  finally have lo: "2 powi (d - 1) < x"
    using qr by (simp add: x pos_less_divide_eq)
  have "of_int p < (2::rat) powi bitlen p" by (rule bp(2))
  also have "\<dots> = 2 powi (d + 1) * 2 powi (bitlen q - 1)"
    by (simp add: d_def power_int_add[symmetric])
  also have "\<dots> \<le> 2 powi (d + 1) * of_int q"
    using bq(1) by (simp add: mult_left_mono)
  finally have hi: "x < 2 powi (d + 1)"
    using qr by (simp add: x pos_divide_less_eq)
  have il: "ilog2 x = (if 2 powi d \<le> x then d else d - 1)"
    by (simp add: ilog2_def pq d_def)
  show ?thesis
    using lo hi by (auto simp: il)
qed

lemma ilog2_unique:
  assumes "0 < x" "2 powi e \<le> x" "x < 2 powi (e + 1)"
  shows "ilog2 x = e"
proof -
  from ilog2_bounds[OF assms(1)]
  have lo: "2 powi ilog2 x \<le> x" and hi: "x < 2 powi (ilog2 x + 1)" by auto
  have "(2::rat) powi e < 2 powi (ilog2 x + 1)" using assms(2) hi by simp
  then have a: "e < ilog2 x + 1"
    by (metis not_less power_int_increasing one_le_numeral)
  have "(2::rat) powi ilog2 x < 2 powi (e + 1)" using lo assms(3) by simp
  then have b: "ilog2 x < e + 1"
    by (metis not_less power_int_increasing one_le_numeral)
  show ?thesis using a b by simp
qed

lemma floor_rat_numeral [simp]:
  "\<lfloor>numeral a / numeral b :: rat\<rfloor> = numeral a div numeral b"
  "\<lfloor>- (numeral a / numeral b) :: rat\<rfloor> = - numeral a div numeral b"
  "\<lfloor>1 / numeral b :: rat\<rfloor> = 1 div numeral b"
  "\<lfloor>- (1 / numeral b) :: rat\<rfloor> = - 1 div numeral b"
  using floor_divide_of_int_eq[of "numeral a" "numeral b", where ?'a = rat]
        floor_divide_of_int_eq[of "- numeral a" "numeral b", where ?'a = rat]
        floor_divide_of_int_eq[of "1" "numeral b", where ?'a = rat]
        floor_divide_of_int_eq[of "- 1" "numeral b", where ?'a = rat]
  by simp_all

lemma round_to_eval:
  assumes "2 powi e \<le> \<bar>x\<bar>" "\<bar>x\<bar> < 2 powi (e + 1)"
  shows "round_to p emin emax x =
     (let q = 2 powi (max e emin - p + 1);
          r = of_int (round_half_even (x / q)) * q
      in if 2 powi (emax + 1) \<le> \<bar>r\<bar> then (if 0 < r then PInf else NInf) else Fin r)"
proof -
  have "0 < (2::rat) powi e" by simp
  then have pos: "0 < \<bar>x\<bar>" using assms(1) by linarith
  then have nz: "x \<noteq> 0" by simp
  have "ilog2 \<bar>x\<bar> = e" using pos assms by (rule ilog2_unique)
  then show ?thesis using nz by (simp add: round_to_def)
qed

lemma round_to_0 [simp]: "round_to p emin emax 0 = Fin 0"
  by (simp add: round_to_def)

lemma f64_1: "f64 1 = Fin 1"
  by (simp add: f64_def round_to_eval[where e=0] round_half_even_def Let_def)

lemma f64_m1: "f64 (- 1) = Fin (- 1)"
  by (simp add: f64_def round_to_eval[where e=0] round_half_even_def Let_def)

lemma f64_2: "f64 2 = Fin 2"
  by (simp add: f64_def round_to_eval[where e=1] round_half_even_def Let_def)

lemma f64_half: "f64 (1 / 2) = Fin (1 / 2)" "f64 (- (1 / 2)) = Fin (- (1 / 2))"
  by (simp_all add: f64_def round_to_eval[where e="-1"] round_half_even_def Let_def)

lemma f32_1: "f32 1 = Fin 1"
  by (simp add: f32_def round_to_eval[where e=0] round_half_even_def Let_def)

lemma f32_m1: "f32 (- 1) = Fin (- 1)"
  by (simp add: f32_def round_to_eval[where e=0] round_half_even_def Let_def)

lemma f32_half: "f32 (1 / 2) = Fin (1 / 2)" "f32 (- (1 / 2)) = Fin (- (1 / 2))"
  by (simp_all add: f32_def round_to_eval[where e="-1"] round_half_even_def Let_def)

lemma f32_0: "f32 0 = Fin 0" by (simp add: f32_def)
lemma f64_0: "f64 0 = Fin 0" by (simp add: f64_def)

lemmas fp_consts = f64_0 f64_1 f64_m1 f64_2 f64_half f32_0 f32_1 f32_m1 f32_half

lemma AMPLITUDE_eq: "AMPLITUDE = Fin (1 / 2)"
  by (simp add: AMPLITUDE_def py_float_def f64_half)

lemma length_wave [simp]: "length (fst (generate_square_wave f p n)) = n"
  by (simp add: generate_square_wave_def Let_def arange_def)

lemma wave_values:
  "y \<in> set (fst (generate_square_wave f p n)) \<Longrightarrow> y = Fin (1 / 2) \<or> y = Fin (- (1 / 2))"
  by (auto simp: generate_square_wave_def Let_def AMPLITUDE_eq fp_uminus_def)

lemma iadd_f32_values:
  "iadd_f32 (Fin 0) (Fin (1 / 2)) = Fin (1 / 2)"
  "iadd_f32 (Fin 0) (Fin (- (1 / 2))) = Fin (- (1 / 2))"
  "iadd_f32 (Fin (1 / 2)) (Fin (1 / 2)) = Fin 1"
  "iadd_f32 (Fin (1 / 2)) (Fin (- (1 / 2))) = Fin 0"
  "iadd_f32 (Fin (- (1 / 2))) (Fin (1 / 2)) = Fin 0"
  "iadd_f32 (Fin (- (1 / 2))) (Fin (- (1 / 2))) = Fin (- 1)"
  by (simp_all add: iadd_f32_def to_f32_def fp_consts)

text \<open>Rounding never passes an integer bound, so it keeps a value below a float bound.\<close>

lemma round_half_even_cases: "round_half_even y = \<lfloor>y\<rfloor> \<or> (round_half_even y = \<lfloor>y\<rfloor> + 1 \<and> of_int \<lfloor>y\<rfloor> < y)"
  by (auto simp: round_half_even_def Let_def)

lemma round_half_even_bounds:
  assumes "of_int M \<le> y" "y \<le> of_int N"
  shows "M \<le> round_half_even y \<and> round_half_even y \<le> N"
proof -
  have a: "M \<le> \<lfloor>y\<rfloor>" using assms(1) by (simp add: le_floor_iff)
  have b: "\<lfloor>y\<rfloor> \<le> N" using assms(2) by (simp add: floor_le_iff)
  have c: "\<lfloor>y\<rfloor> + 1 \<le> N" if "of_int \<lfloor>y\<rfloor> < y"
  proof -
    have "of_int \<lfloor>y\<rfloor> < (of_int N :: rat)" using that assms(2) by linarith
    then show ?thesis by simp
  qed
  show ?thesis using round_half_even_cases[of y] a b c by auto
qed

lemma round_to_bounded:
  assumes "- of_int N \<le> x" "x \<le> of_int N" "N < 2 ^ nat p" "0 < p" "emin \<le> p - 1" "p \<le> emax + 1"
  shows "\<exists>y. round_to p emin emax x = Fin y \<and> - of_int N \<le> y \<and> y \<le> of_int N"
proof (cases "x = 0")
  case True
  then show ?thesis using assms(1) by (simp add: round_to_def)
next
  case False
  then have pos: "0 < \<bar>x\<bar>" by simp
  define e where "e = max (ilog2 \<bar>x\<bar>) emin"
  define k where "k = nat (p - 1 - e)"
  have Np: "(of_int N :: rat) < 2 powi p"
  proof -
    have "(of_int N :: rat) < of_int (2 ^ nat p)" using assms(3) by (simp only: of_int_less_iff)
    then show ?thesis using assms(4) by (simp add: power_int_def)
  qed
  have "\<bar>x\<bar> \<le> of_int N" using assms(1,2) by (simp add: abs_le_iff)
  then have "(2::rat) powi ilog2 \<bar>x\<bar> < 2 powi p"
    using ilog2_bounds[OF pos] Np by linarith
  then have "ilog2 \<bar>x\<bar> < p"
    by (metis not_less power_int_increasing one_le_numeral)
  then have ep: "e \<le> p - 1" using assms(5) by (simp add: e_def)
  then have q: "(2::rat) powi (e - p + 1) = 1 / 2 ^ k"
  proof -
    have "e - p + 1 = - int k" using ep by (simp add: k_def)
    then show ?thesis by (simp add: power_int_minus_divide)
  qed
  define z where "z = round_half_even (x / (1 / 2 ^ k))"
  have "(- of_int N) * 2 ^ k \<le> x * 2 ^ k" "x * 2 ^ k \<le> of_int N * 2 ^ k"
    using assms(1,2) by (simp_all only: mult_right_mono zero_le_power zero_le_numeral)
  then have "of_int (- (N * 2 ^ k)) \<le> x / (1 / 2 ^ k)" "x / (1 / 2 ^ k) \<le> of_int (N * 2 ^ k)"
    by simp_all
  then have zb: "- (N * 2 ^ k) \<le> z" "z \<le> N * 2 ^ k"
    using round_half_even_bounds[of "- (N * 2 ^ k)" "x / (1 / 2 ^ k)" "N * 2 ^ k"] by (simp_all add: z_def)
  define r :: rat where "r = of_int z * (1 / 2 ^ k)"
  have "(of_int (- (N * 2 ^ k)) :: rat) \<le> of_int z" "(of_int z :: rat) \<le> of_int (N * 2 ^ k)"
    using zb by (simp_all only: of_int_le_iff)
  then have rb: "- of_int N \<le> r" "r \<le> of_int N"
    by (simp_all add: r_def field_simps)
  have "(2::rat) powi p \<le> 2 powi (emax + 1)"
    using assms(6) by (intro power_int_increasing) simp_all
  then have "\<bar>r\<bar> < 2 powi (emax + 1)" using rb Np by (simp add: abs_less_iff)
  then have "round_to p emin emax x = Fin r"
    using False by (simp add: round_to_def Let_def e_def[symmetric] q r_def z_def)
  then show ?thesis using rb by simp
qed

section \<open>Values on the render path\<close>

lemma round_to_not_NaN [simp]: "round_to p emin emax x \<noteq> NaN"
  by (simp add: round_to_def Let_def)

lemma np_clip_in_range: "x \<noteq> NaN \<Longrightarrow> in_unit_range (np_clip x (Fin (- 1)) (Fin 1))"
  by (cases x) (auto simp: np_clip_def in_unit_range_def Let_def)

lemma np_clip_idem: "np_clip (np_clip x (Fin (- 1)) (Fin 1)) (Fin (- 1)) (Fin 1) = np_clip x (Fin (- 1)) (Fin 1)"
  by (cases x) (auto simp: np_clip_def Let_def)

lemma py_float_consts: "py_float 1 = Fin 1" "py_float (- 1) = Fin (- 1)" "py_float 0 = Fin 0"
  by (simp_all add: py_float_def fp_consts)

lemma iadd_f32_not_NaN:
  assumes "x \<noteq> NaN" "w = Fin a"
  shows "iadd_f32 x w \<noteq> NaN"
  using assms by (cases x) (auto simp: iadd_f32_def to_f32_def f64_def f32_def split: fpval.splits)

lemma length_process_channel:
  "length output = frames \<Longrightarrow> length (fst (process_channel frames output ch)) = frames"
  by (simp add: process_channel_def split_beta)

lemma map2_elem: "y \<in> set (map2 f xs ys) \<Longrightarrow> \<exists>x\<in>set xs. \<exists>w\<in>set ys. y = f x w"
  by (auto dest: set_zip_leftD set_zip_rightD)

lemma process_channel_not_NaN:
  assumes "NaN \<notin> set output"
  shows "NaN \<notin> set (fst (process_channel frames output ch))"
proof (cases "active ch \<and> fp_less (f64_of_int 0) (frequency ch)")
  case False
  then show ?thesis using assms by (auto simp: process_channel_def)
next
  case True
  have "iadd_f32 x w \<noteq> NaN"
    if "x \<in> set output" "w \<in> set (fst (generate_square_wave (frequency ch) (phase ch) frames))" for x w
  proof -
    from wave_values[OF that(2)] obtain a where "w = Fin a" by auto
    moreover have "x \<noteq> NaN" using assms that(1) by auto
    ultimately show ?thesis by (rule iadd_f32_not_NaN[rotated])
  qed
  then have "y \<noteq> NaN"
    if "y \<in> set (map2 iadd_f32 output (fst (generate_square_wave (frequency ch) (phase ch) frames)))" for y
    using map2_elem[OF that] by auto
  then show ?thesis using True
    by (auto simp: process_channel_def split_beta simp del: set_map)
qed

lemma audio_callback_output:
  "fst (audio_callback frames s) =
     map (\<lambda>x. np_clip x (Fin (- 1)) (Fin 1))
       (fst (process_channel frames (fst (process_channel frames (replicate frames (Fin 0)) (CH1 s))) (CH2 s)))"
  by (simp add: audio_callback_def split_beta Let_def py_float_consts fp_consts)

lemma audio_callback_buffer:
  "WAV_BUFFER (snd (audio_callback frames s)) = WAV_BUFFER s @ fst (audio_callback frames s)"
  by (simp add: audio_callback_def split_beta Let_def)

lemma length_audio_callback: "length (fst (audio_callback frames s)) = frames"
  by (simp add: audio_callback_output length_process_channel)

lemma audio_callback_in_range:
  assumes "y \<in> set (fst (audio_callback frames s))"
  shows "in_unit_range y"
proof -
  let ?o = "fst (process_channel frames (fst (process_channel frames (replicate frames (Fin 0)) (CH1 s))) (CH2 s))"
  have "NaN \<notin> set (replicate frames (Fin 0))" by auto
  then have "NaN \<notin> set ?o" by (intro process_channel_not_NaN)
  moreover from assms obtain x where "x \<in> set ?o" "y = np_clip x (Fin (- 1)) (Fin 1)"
    by (auto simp: audio_callback_output)
  ultimately show ?thesis by (auto intro: np_clip_in_range)
qed

lemma channel_block_inactive: "\<not> active ch \<Longrightarrow> channel_block frames ch = replicate frames (Fin 0)"
  by (simp add: channel_block_def process_channel_def f32_0)

lemma audio_callback_ch1_silent:
  "\<not> active (CH1 s) \<Longrightarrow>
     fst (audio_callback frames s) = map (\<lambda>x. np_clip x (Fin (- 1)) (Fin 1)) (channel_block frames (CH2 s))"
  by (simp add: audio_callback_output channel_block_def process_channel_def f32_0)

lemma audio_callback_ch2_silent:
  "\<not> active (CH2 s) \<Longrightarrow>
     fst (audio_callback frames s) = map (\<lambda>x. np_clip x (Fin (- 1)) (Fin 1)) (channel_block frames (CH1 s))"
  by (simp add: audio_callback_output channel_block_def process_channel_def f32_0)

section \<open>Event handlers\<close>

lemma notes_disjoint: "CHANNEL1_NOTES k = Some f \<Longrightarrow> CHANNEL2_NOTES k = None"
  by (auto simp: CHANNEL1_NOTES_def CHANNEL2_NOTES_def split: if_splits)

lemma notes_disjoint': "CHANNEL2_NOTES k = Some f \<Longrightarrow> CHANNEL1_NOTES k = None"
  by (auto simp: CHANNEL1_NOTES_def CHANNEL2_NOTES_def split: if_splits)

lemma notes_a: "CHANNEL1_NOTES ''a'' = Some (py_float (26163 / 100))"
  by (simp add: CHANNEL1_NOTES_def)

lemma notes_z: "CHANNEL2_NOTES ''z'' = Some (py_float (52325 / 100))"
  by (simp add: CHANNEL2_NOTES_def)

lemma lower_examples: "lower ''A'' = ''a''" "lower ''z'' = ''z''"
  by code_simp+

lemma lower_q: "lower ''q'' = ''q''" "lower ''A'' = ''a''"
  by code_simp+

text \<open>
  C3. A key-down event for a key of a channel's note map sets that channel's \<open>active\<close>
  to true and its \<open>frequency\<close> to the mapped value, whatever the channel held before
  (a second key of the same channel overwrites the frequency); the phase is kept. It holds
  for the hooks of gb.py and for \<open>on_press\<close> of 2gb.py, which lower-cases the character.
\<close>

theorem press_sets_channel:
  assumes "CHANNEL1_NOTES k1 = Some f1" and "CHANNEL2_NOTES k2 = Some f2"
    and "CHANNEL1_NOTES (lower c1) = Some g1" and "CHANNEL2_NOTES (lower c2) = Some g2"
  shows "CH1 (hooks (key_down k1) s) = (CH1 s)\<lparr>active := True, frequency := f1\<rparr>
       \<and> CH2 (hooks (key_down k2) s) = (CH2 s)\<lparr>active := True, frequency := f2\<rparr>
       \<and> CH1 (on_press (KeyCode (Some c1)) s) = (CH1 s)\<lparr>active := True, frequency := g1\<rparr>
       \<and> CH2 (on_press (KeyCode (Some c2)) s) = (CH2 s)\<lparr>active := True, frequency := g2\<rparr>"
  using assms notes_disjoint'[OF assms(4)]
  by (auto simp: hooks_def handle_key_event_def key_down_def dict_get_def on_press_def Let_def dom_def)

theorem press_sets_channel_witness:
  "CHANNEL1_NOTES ''a'' = Some (py_float (26163 / 100))
   \<and> CHANNEL2_NOTES ''z'' = Some (py_float (52325 / 100))
   \<and> CHANNEL1_NOTES (lower ''A'') = Some (py_float (26163 / 100))
   \<and> CHANNEL2_NOTES (lower ''z'') = Some (py_float (52325 / 100))
   \<and> CH1 (hooks (key_down ''a'') (hooks (key_down ''s'') initial))
       = (CH1 (hooks (key_down ''s'') initial))\<lparr>active := True, frequency := py_float (26163 / 100)\<rparr>
   \<and> CH2 (hooks (key_down ''z'') (hooks (key_down ''s'') initial))
       = (CH2 (hooks (key_down ''s'') initial))\<lparr>active := True, frequency := py_float (52325 / 100)\<rparr>
   \<and> CH1 (on_press (KeyCode (Some ''A'')) (hooks (key_down ''s'') initial))
       = (CH1 (hooks (key_down ''s'') initial))\<lparr>active := True, frequency := py_float (26163 / 100)\<rparr>
   \<and> CH2 (on_press (KeyCode (Some ''z'')) (hooks (key_down ''s'') initial))
       = (CH2 (hooks (key_down ''s'') initial))\<lparr>active := True, frequency := py_float (52325 / 100)\<rparr>"
proof -
  have h3: "CHANNEL1_NOTES (lower ''A'') = Some (py_float (26163 / 100))"
    by (simp only: lower_examples notes_a)
  have h4: "CHANNEL2_NOTES (lower ''z'') = Some (py_float (52325 / 100))"
    by (simp only: lower_examples notes_z)
  show ?thesis
    using notes_a notes_z h3 h4
      press_sets_channel[OF notes_a notes_z h3 h4, of "hooks (key_down ''s'') initial"]
    by blast
qed

text \<open>
  C4. A key-up event for a key of a channel's note map clears that channel's \<open>active\<close>
  flag, whatever frequency is stored (the released key need not be the sounding one), and
  the channel then adds nothing to the next block: its part of the block is all zero and
  the callback's block is the clipped block of the other channel alone.
\<close>

theorem release_silences_channel:
  assumes "CHANNEL1_NOTES k1 = Some f1" and "CHANNEL2_NOTES k2 = Some f2"
    and "CHANNEL1_NOTES (lower c1) = Some g1" and "CHANNEL2_NOTES (lower c2) = Some g2"
  shows "CH1 (hooks (key_up k1) s) = (CH1 s)\<lparr>active := False\<rparr>
       \<and> CH2 (hooks (key_up k2) s) = (CH2 s)\<lparr>active := False\<rparr>
       \<and> CH1 (snd (on_release (KeyCode (Some c1)) s)) = (CH1 s)\<lparr>active := False\<rparr>
       \<and> CH2 (snd (on_release (KeyCode (Some c2)) s)) = (CH2 s)\<lparr>active := False\<rparr>
       \<and> channel_block frames (CH1 (hooks (key_up k1) s)) = replicate frames (Fin 0)
       \<and> channel_block frames (CH2 (hooks (key_up k2) s)) = replicate frames (Fin 0)
       \<and> channel_block frames (CH1 (snd (on_release (KeyCode (Some c1)) s))) = replicate frames (Fin 0)
       \<and> channel_block frames (CH2 (snd (on_release (KeyCode (Some c2)) s))) = replicate frames (Fin 0)
       \<and> fst (audio_callback frames (hooks (key_up k1) s))
           = map (\<lambda>x. np_clip x (Fin (- 1)) (Fin 1)) (channel_block frames (CH2 s))
       \<and> fst (audio_callback frames (hooks (key_up k2) s))
           = map (\<lambda>x. np_clip x (Fin (- 1)) (Fin 1)) (channel_block frames (CH1 s))
       \<and> fst (audio_callback frames (snd (on_release (KeyCode (Some c1)) s)))
           = map (\<lambda>x. np_clip x (Fin (- 1)) (Fin 1)) (channel_block frames (CH2 s))
       \<and> fst (audio_callback frames (snd (on_release (KeyCode (Some c2)) s)))
           = map (\<lambda>x. np_clip x (Fin (- 1)) (Fin 1)) (channel_block frames (CH1 s))"
proof -
  have a: "CH1 (hooks (key_up k1) s) = (CH1 s)\<lparr>active := False\<rparr>"
    using assms(1) by (simp add: hooks_def handle_key_event_def key_up_def dict_get_def)
  have a2: "CH2 (hooks (key_up k1) s) = CH2 s"
    using notes_disjoint[OF assms(1)] by (simp add: hooks_def handle_key_event_def key_up_def dict_get_def)
  have b: "CH2 (hooks (key_up k2) s) = (CH2 s)\<lparr>active := False\<rparr>"
    using assms(2) by (simp add: hooks_def handle_key_event_def key_up_def dict_get_def)
  have b1: "CH1 (hooks (key_up k2) s) = CH1 s"
    using notes_disjoint'[OF assms(2)] by (simp add: hooks_def handle_key_event_def key_up_def dict_get_def)
  have c: "snd (on_release (KeyCode (Some c1)) s) = s\<lparr>CH1 := (CH1 s)\<lparr>active := False\<rparr>\<rparr>"
    using assms(3) by (simp add: on_release_def Let_def dom_def)
  have d: "snd (on_release (KeyCode (Some c2)) s) = s\<lparr>CH2 := (CH2 s)\<lparr>active := False\<rparr>\<rparr>"
    using assms(4) notes_disjoint'[OF assms(4)] by (simp add: on_release_def Let_def dom_def)
  show ?thesis
    by (simp add: a b c d a2 b1 channel_block_inactive audio_callback_ch1_silent audio_callback_ch2_silent)
qed

theorem release_silences_channel_witness:
  "CHANNEL1_NOTES ''a'' = Some (py_float (26163 / 100))
   \<and> CHANNEL2_NOTES ''z'' = Some (py_float (52325 / 100))
   \<and> CHANNEL1_NOTES (lower ''A'') = Some (py_float (26163 / 100))
   \<and> CHANNEL2_NOTES (lower ''z'') = Some (py_float (52325 / 100))
   \<and> CH1 (hooks (key_up ''a'') (hooks (key_down ''s'') initial))
       = (CH1 (hooks (key_down ''s'') initial))\<lparr>active := False\<rparr>
   \<and> channel_block 1024 (CH1 (hooks (key_up ''a'') (hooks (key_down ''s'') initial)))
       = replicate 1024 (Fin 0)
   \<and> CH1 (snd (on_release (KeyCode (Some ''A'')) (hooks (key_down ''s'') initial)))
       = (CH1 (hooks (key_down ''s'') initial))\<lparr>active := False\<rparr>"
proof -
  have h3: "CHANNEL1_NOTES (lower ''A'') = Some (py_float (26163 / 100))"
    by (simp only: lower_examples notes_a)
  have h4: "CHANNEL2_NOTES (lower ''z'') = Some (py_float (52325 / 100))"
    by (simp only: lower_examples notes_z)
  show ?thesis
    using notes_a notes_z h3 h4
      release_silences_channel[OF notes_a notes_z h3 h4, of "hooks (key_down ''s'') initial" 1024]
    by blast
qed

text \<open>
  C8. An event whose key is in neither note map leaves both channel states and the capture
  buffer unchanged: the hooks of gb.py change nothing, \<open>on_release\<close> of 2gb.py changes
  nothing, and \<open>on_press\<close> changes at most the quit flag.
\<close>

theorem unmapped_event_frame:
  assumes "dict_get CHANNEL1_NOTES (name e) = None" and "dict_get CHANNEL2_NOTES (name e) = None"
    and "unmapped_key k"
  shows "hooks e s = s
       \<and> CH1 (on_press k s) = CH1 s \<and> CH2 (on_press k s) = CH2 s
       \<and> WAV_BUFFER (on_press k s) = WAV_BUFFER s
       \<and> (on_press k s = s \<or> on_press k s = s\<lparr>QUIT_FLAG := True\<rparr>)
       \<and> snd (on_release k s) = s"
  using assms
  by (auto simp: hooks_def handle_key_event_def on_press_def on_release_def Let_def dom_def
      unmapped_key_def split: key.splits option.splits)

theorem unmapped_event_frame_witness:
  "dict_get CHANNEL1_NOTES (name (key_down ''q'')) = None
   \<and> dict_get CHANNEL2_NOTES (name (key_down ''q'')) = None
   \<and> unmapped_key (KeyCode (Some ''q''))
   \<and> hooks (key_down ''q'') initial = initial
   \<and> CH1 (on_press (KeyCode (Some ''q'')) initial) = CH1 initial
   \<and> CH2 (on_press (KeyCode (Some ''q'')) initial) = CH2 initial
   \<and> snd (on_release (KeyCode (Some ''q'')) initial) = initial"
proof -
  have h1: "dict_get CHANNEL1_NOTES (name (key_down ''q'')) = None"
    by (simp add: dict_get_def key_down_def CHANNEL1_NOTES_def)
  have h2: "dict_get CHANNEL2_NOTES (name (key_down ''q'')) = None"
    by (simp add: dict_get_def key_down_def CHANNEL2_NOTES_def)
  have h3: "unmapped_key (KeyCode (Some ''q''))"
    by (simp add: unmapped_key_def lower_q CHANNEL1_NOTES_def CHANNEL2_NOTES_def)
  show ?thesis
    using h1 h2 h3 unmapped_event_frame[OF h1 h2 h3, of initial] by simp
qed

section \<open>Render callback\<close>

text \<open>
  C5. Clipping to \<open>[-1, 1]\<close> is idempotent, and every sample of the block that the
  render callback writes and appends to the capture buffer is a finite number of
  \<open>[-1, 1]\<close>, for all channel states.
\<close>

theorem clipping_invariant:
  "np_clip (np_clip x (py_float (- 1)) (py_float 1)) (py_float (- 1)) (py_float 1)
     = np_clip x (py_float (- 1)) (py_float 1)
   \<and> (\<forall>i<frames. in_unit_range (fst (audio_callback frames s) ! i))
   \<and> WAV_BUFFER (snd (audio_callback frames s)) = WAV_BUFFER s @ fst (audio_callback frames s)"
proof -
  have "in_unit_range (fst (audio_callback frames s) ! i)" if "i < frames" for i
    by (rule audio_callback_in_range[of _ frames s]) (simp add: that length_audio_callback)
  then show ?thesis
    by (simp add: py_float_consts np_clip_idem audio_callback_buffer)
qed

theorem clipping_invariant_witness:
  "(0::nat) < 1
   \<and> in_unit_range (fst (audio_callback 1 (hooks (key_down ''z'') (hooks (key_down ''a'') initial))) ! 0)"
  using clipping_invariant[of "Fin 0" 1 "hooks (key_down ''z'') (hooks (key_down ''a'') initial)"]
  by simp

lemma buffer_hooks [simp]: "WAV_BUFFER (hooks e s) = WAV_BUFFER s"
  by (simp add: hooks_def)

lemma buffer_on_press [simp]: "WAV_BUFFER (on_press k s) = WAV_BUFFER s"
  by (auto simp: on_press_def Let_def split: key.splits option.splits)

lemma buffer_on_release [simp]: "WAV_BUFFER (snd (on_release k s)) = WAV_BUFFER s"
  by (auto simp: on_release_def Let_def split: key.splits option.splits)

lemma length_buffer_run:
  "length (WAV_BUFFER (run steps s)) = length (WAV_BUFFER s) + rendered steps"
  by (induction steps s rule: run.induct)
     (simp_all add: audio_callback_buffer length_audio_callback)

text \<open>
  C6. Every render callback appends exactly its block, of the requested length, to the
  capture buffer, whether or not a channel is active; after any session the buffer has
  grown by the sum of the rendered block lengths.
\<close>

theorem capture_completeness:
  "length (fst (audio_callback frames s)) = frames
   \<and> WAV_BUFFER (snd (audio_callback frames s)) = WAV_BUFFER s @ fst (audio_callback frames s)
   \<and> length (WAV_BUFFER (run steps s)) = length (WAV_BUFFER s) + rendered steps"
  by (simp add: length_audio_callback audio_callback_buffer length_buffer_run)

section \<open>Flush\<close>

lemma f32_32767: "f32_of_int 32767 = Fin 32767"
  by (simp add: f32_of_int_def f32_def round_to_eval[where e=14] round_half_even_def Let_def)

lemma flush_nonempty:
  "buffer \<noteq> [] \<Longrightarrow> flush buffer =
     (Some \<lparr>filename = ''gameboy_audio.wav'', rate = 44100,
             data = map (\<lambda>x. astype_int16 (fp_mul f32 (np_clip (to_f32 x) (Fin (- 1)) (Fin 1)) (Fin 32767))) buffer\<rparr>,
      ''Audio saved to gameboy_audio.wav'')"
  by (simp add: flush_def Let_def py_float_consts f32_32767 SAMPLE_RATE_def comp_def)

lemma f32_16383_5: "f32 (32767 / 2) = Fin (32767 / 2)"
  by (simp add: f32_def round_to_eval[where e=13] round_half_even_def Let_def)

lemma f32_m32767: "f32 (- 32767) = Fin (- 32767)"
  by (simp add: f32_def round_to_eval[where e=14] round_half_even_def Let_def)

lemma to_f32_not_NaN: "x \<noteq> NaN \<Longrightarrow> to_f32 x \<noteq> NaN"
  by (cases x) (simp_all add: to_f32_def f32_def)

lemma scaled_sample:
  assumes "x \<noteq> NaN"
  shows "\<exists>y. fp_mul f32 (np_clip (to_f32 x) (Fin (- 1)) (Fin 1)) (Fin 32767) = Fin y
            \<and> - 32767 \<le> y \<and> y \<le> 32767"
proof -
  from np_clip_in_range[OF to_f32_not_NaN[OF assms]]
  obtain r where r: "np_clip (to_f32 x) (Fin (- 1)) (Fin 1) = Fin r" "- 1 \<le> r" "r \<le> 1"
    by (auto simp: in_unit_range_def split: fpval.splits)
  have "\<exists>y. round_to 24 (- 126) 127 (r * 32767) = Fin y \<and> - of_int 32767 \<le> y \<and> y \<le> of_int 32767"
    using r(2,3) by (intro round_to_bounded) simp_all
  then show ?thesis by (simp add: r(1) fp_mul_def f32_def)
qed

lemma c_trunc_bounds:
  assumes "- of_int N \<le> y" "y \<le> of_int N"
  shows "- N \<le> c_trunc y \<and> c_trunc y \<le> N"
  using assms by (auto simp: c_trunc_def le_floor_iff floor_le_iff) linarith+

lemma sint_16_word_of_int:
  assumes "- 32768 \<le> t" "t \<le> 32767"
  shows "sint (word_of_int t :: 16 word) = t"
  using assms by (simp add: sint_sbintrunc' signed_take_bit_int_eq_self)

lemma astype_int16_in_range:
  assumes "- 32767 \<le> y" "y \<le> 32767"
  shows "\<exists>w. astype_int16 (Fin y) = Some w \<and> sint w = c_trunc y"
proof -
  have "- 32767 \<le> c_trunc y \<and> c_trunc y \<le> 32767"
    using c_trunc_bounds[of 32767 y] assms by simp
  then show ?thesis by (simp add: astype_int16_def sint_16_word_of_int)
qed

text \<open>The clip of the code is the clip of the specification, and what flush writes for one
  sample.\<close>

lemma clip_spec:
  assumes "x \<noteq> NaN"
  shows "\<exists>c. spec_clip x = Some c \<and> np_clip x (Fin (- 1)) (Fin 1) = Fin c \<and> - 1 \<le> c \<and> c \<le> 1"
  using assms by (cases x) (auto simp: spec_clip_def np_clip_def)

lemma flush_sample:
  assumes "x \<noteq> NaN"
  shows "\<exists>c y w. spec_clip (to_f32 x) = Some c \<and> f32 (c * 32767) = Fin y
           \<and> astype_int16 (fp_mul f32 (np_clip (to_f32 x) (Fin (- 1)) (Fin 1)) (Fin 32767)) = Some w
           \<and> sint w = (if 0 \<le> y then \<lfloor>y\<rfloor> else - \<lfloor>- y\<rfloor>)"
proof -
  from clip_spec[OF to_f32_not_NaN[OF assms]]
  obtain c where c: "spec_clip (to_f32 x) = Some c" "np_clip (to_f32 x) (Fin (- 1)) (Fin 1) = Fin c"
    "- 1 \<le> c" "c \<le> 1" by blast
  have "\<exists>y. round_to 24 (- 126) 127 (c * 32767) = Fin y \<and> - of_int 32767 \<le> y \<and> y \<le> of_int 32767"
    using c(3,4) by (intro round_to_bounded) simp_all
  then obtain y where y: "f32 (c * 32767) = Fin y" "- 32767 \<le> y" "y \<le> 32767"
    by (auto simp: f32_def)
  from astype_int16_in_range[OF y(2,3)] obtain w where
    w: "astype_int16 (Fin y) = Some w" "sint w = c_trunc y" by auto
  have "astype_int16 (fp_mul f32 (np_clip (to_f32 x) (Fin (- 1)) (Fin 1)) (Fin 32767)) = Some w"
    by (simp add: c(2) fp_mul_def y(1) w(1))
  then show ?thesis using c(1) y(1) w(2) by (auto simp: c_trunc_def)
qed

lemma f32_witness_values: "f32 (3 / 2) = Fin (3 / 2)" "f32 (- 2) = Fin (- 2)" "f32 32767 = Fin 32767"
  by (simp_all add: f32_def round_to_eval[where e=0] round_to_eval[where e=1] round_to_eval[where e=14]
      round_half_even_def Let_def)


text \<open>
  C7. Flush of an empty buffer writes no file and reports that no data was recorded. Flush
  of a non-empty buffer writes one mono file at 44100 Hz with one sample per buffered
  sample and reports the save. Every buffered sample that is a number is converted to
  \<open>float32\<close> and clipped: below \<open>-1\<close> it becomes \<open>-1\<close>, above \<open>1\<close> it becomes \<open>1\<close>, otherwise it is
  kept (\<open>spec_clip\<close>); the clipped value \<open>c\<close> is scaled to the \<open>float32\<close> product \<open>y\<close> of \<open>c\<close> and
  32767, and the written 16-bit integer is \<open>y\<close> truncated towards zero.
\<close>

theorem flush_behaviour:
  "flush [] = (None, ''No audio data recorded'')
   \<and> (buffer \<noteq> [] \<longrightarrow>
        flush buffer =
          (Some \<lparr>filename = ''gameboy_audio.wav'', rate = 44100,
                  data = map (\<lambda>x. astype_int16 (fp_mul f32 (np_clip (to_f32 x) (Fin (- 1)) (Fin 1)) (Fin 32767))) buffer\<rparr>,
           ''Audio saved to gameboy_audio.wav'')
        \<and> length (data (the (fst (flush buffer)))) = length buffer
        \<and> (\<forall>i<length buffer. buffer ! i \<noteq> NaN \<longrightarrow>
             (\<exists>c y w. spec_clip (to_f32 (buffer ! i)) = Some c \<and> f32 (c * 32767) = Fin y
                \<and> data (the (fst (flush buffer))) ! i = Some w
                \<and> sint w = (if 0 \<le> y then \<lfloor>y\<rfloor> else - \<lfloor>- y\<rfloor>))))"
proof -
  have e: "flush [] = (None, ''No audio data recorded'')" by (simp add: flush_def)
  have s: "\<exists>c y w. spec_clip (to_f32 (buffer ! i)) = Some c \<and> f32 (c * 32767) = Fin y
                \<and> data (the (fst (flush buffer))) ! i = Some w
                \<and> sint w = (if 0 \<le> y then \<lfloor>y\<rfloor> else - \<lfloor>- y\<rfloor>)"
    if "buffer \<noteq> []" "i < length buffer" "buffer ! i \<noteq> NaN" for i
    using flush_sample[OF that(3)] that(2) by (simp add: flush_nonempty[OF that(1)])
  show ?thesis using e s by (simp add: flush_nonempty)
qed


theorem flush_behaviour_witness:
  "[Fin (3 / 2), Fin (- 2), Fin (1 / 2)] \<noteq> []
   \<and> flush [Fin (3 / 2), Fin (- 2), Fin (1 / 2)] =
       (Some \<lparr>filename = ''gameboy_audio.wav'', rate = 44100,
               data = [Some 32767, Some (- 32767), Some 16383]\<rparr>,
        ''Audio saved to gameboy_audio.wav'')
   \<and> spec_clip (to_f32 (Fin (3 / 2))) = Some 1 \<and> spec_clip (to_f32 (Fin (- 2))) = Some (- 1)"
  using flush_behaviour[of "[Fin (3 / 2), Fin (- 2), Fin (1 / 2)]"]
  by (simp add: to_f32_def np_clip_def spec_clip_def fp_mul_def astype_int16_def c_trunc_def fp_consts
      f32_16383_5 f32_m32767 f32_witness_values)

lemma session_buffer_in_range:
  assumes "\<forall>x\<in>set (WAV_BUFFER s). in_unit_range x"
  shows "\<forall>x\<in>set (WAV_BUFFER (run steps s)). in_unit_range x"
  using assms
proof (induction steps s rule: run.induct)
  case (2 frames rest s)
  have "\<forall>x\<in>set (WAV_BUFFER (snd (audio_callback frames s))). in_unit_range x"
    using 2(2) by (auto simp: audio_callback_buffer intro: audio_callback_in_range)
  then show ?case using 2(1) by simp
qed simp_all

lemma session_buffer_no_NaN:
  assumes "i < length (WAV_BUFFER (run steps initial))"
  shows "WAV_BUFFER (run steps initial) ! i \<noteq> NaN"
proof -
  have "\<forall>x\<in>set (WAV_BUFFER (run steps initial)). in_unit_range x"
    by (rule session_buffer_in_range) (simp add: initial_def)
  then have "in_unit_range (WAV_BUFFER (run steps initial) ! i)"
    using assms by simp
  then show ?thesis by (auto simp: in_unit_range_def)
qed

text \<open>
  C10. In flush, every buffered sample that is a number (not a NaN; the render callback
  appends none) is, after the clip, scaled to a value of \<open>[-32767, 32767]\<close>, so its
  conversion to a 16-bit integer is defined and the written sample is the truncation of
  the scaled value.
\<close>

theorem flush_no_overflow:
  assumes "i < length buffer" and "buffer ! i \<noteq> NaN"
  shows "\<exists>file y w. fst (flush buffer) = Some file
           \<and> fp_mul f32 (np_clip (to_f32 (buffer ! i)) (py_float (- 1)) (py_float 1)) (f32_of_int 32767) = Fin y
           \<and> - 32767 \<le> y \<and> y \<le> 32767
           \<and> data file ! i = Some w \<and> sint w = c_trunc y"
proof -
  have ne: "buffer \<noteq> []" using assms(1) by auto
  from scaled_sample[OF assms(2)] obtain y where
    y: "fp_mul f32 (np_clip (to_f32 (buffer ! i)) (Fin (- 1)) (Fin 1)) (Fin 32767) = Fin y"
       "- 32767 \<le> y" "y \<le> 32767" by auto
  from astype_int16_in_range[OF y(2,3)] obtain w where
    w: "astype_int16 (Fin y) = Some w" "sint w = c_trunc y" by auto
  show ?thesis
    using y w assms(1) by (simp add: flush_nonempty[OF ne] py_float_consts f32_32767)
qed

theorem flush_no_overflow_witness:
  "(0::nat) < length [Fin (3 / 2)] \<and> [Fin (3 / 2)] ! 0 \<noteq> NaN
   \<and> (\<exists>file y w. fst (flush [Fin (3 / 2)]) = Some file
         \<and> fp_mul f32 (np_clip (to_f32 ([Fin (3 / 2)] ! 0)) (py_float (- 1)) (py_float 1)) (f32_of_int 32767) = Fin y
         \<and> - 32767 \<le> y \<and> y \<le> 32767
         \<and> data file ! 0 = Some w \<and> sint w = c_trunc y)"
  using flush_no_overflow[of 0 "[Fin (3 / 2)]"] by simp

section \<open>Oscillator\<close>

text \<open>The vectorised code computes, sample by sample, the terms of the contract.\<close>

lemma generate_square_wave_eq:
  "generate_square_wave f p n = (map (\<lambda>i. square_sample f p (int i)) [0..<n], instantaneous_phase f p (int n))"
  by (simp add: generate_square_wave_def Let_def arange_def square_sample_def instantaneous_phase_def
      phase_increment_def two_pi_def comp_def)


text \<open>Evaluating a rounding to binary64 once the binade of the exact value is known.\<close>

lemma f64_eval:
  assumes "2 powi e \<le> \<bar>x\<bar>" "\<bar>x\<bar> < 2 powi (e + 1)"
  shows "f64 x =
     (let q = 2 powi (max e (- 1022) - 52);
          r = of_int (round_half_even (x / q)) * q
      in if 2 powi 1024 \<le> \<bar>r\<bar> then (if 0 < r then PInf else NInf) else Fin r)"
  using round_to_eval[OF assms, of 53 "- 1022" 1023] by (simp add: f64_def)

lemma fp_mul_Fin: "fp_mul rnd (Fin a) (Fin b) = rnd (a * b)"
  by (simp add: fp_mul_def)

lemma fp_div_Fin: "b \<noteq> 0 \<Longrightarrow> fp_div rnd (Fin a) (Fin b) = rnd (a / b)"
  by (simp add: fp_div_def)

lemma f64_ints: "f64_of_int 0 = Fin 0" "f64_of_int 2 = Fin 2" "f64_of_int SAMPLE_RATE = Fin 44100"
  "py_float 392 = Fin 392" "f64_of_int 1350 = Fin 1350" "f64_of_int 1024 = Fin 1024" "f64_of_int 326 = Fin 326"
  by (simp_all add: f64_of_int_def SAMPLE_RATE_def py_float_def f64_0 f64_eval[where e=1] f64_eval[where e=15]
      f64_eval[where e=8] f64_eval[where e=10] round_half_even_def Let_def)

lemma two_pi_eq: "two_pi = Fin (884279719003555 / 140737488355328)"
  by (simp add: two_pi_def f64_ints np_pi_def fp_mul_Fin f64_eval[where e=2] round_half_even_def Let_def)

text \<open>
  The 392 Hz example, one float operation at a time: the increment, sample 1350 of one
  block from phase 0, the phase after a block of 1024 samples, and sample 326 of the block
  that follows it.
\<close>

lemma k392_a: "fp_mul f64 (Fin 392) (Fin 2) = Fin 784"
  by (simp add: fp_mul_Fin f64_eval[where e=9] round_half_even_def Let_def)

lemma k392_b: "fp_mul f64 (Fin 784) (Fin (884279719003555 / 281474976710656)) = Fin (2708106639448387 / 1099511627776)"
  by (simp add: fp_mul_Fin f64_eval[where e=11] round_half_even_def Let_def)

lemma k392_inc: "fp_div f64 (Fin (2708106639448387 / 1099511627776)) (Fin 44100) = Fin (2012227627243645 / 36028797018963968)"
  by (simp add: fp_div_Fin f64_eval[where e="-5"] round_half_even_def Let_def)

lemma k392_m1350: "fp_mul f64 (Fin 1350) (Fin (2012227627243645 / 36028797018963968)) = Fin (2652839157010665 / 35184372088832)"
  by (simp add: fp_mul_Fin f64_eval[where e=6] round_half_even_def Let_def)

lemma k392_s1350: "fp_add f64 (Fin 0) (Fin (2652839157010665 / 35184372088832)) = Fin (2652839157010665 / 35184372088832)"
  by (simp add: f64_eval[where e=6] round_half_even_def Let_def)

lemma k392_p1350: "fp_mod f64 (Fin (2652839157010665 / 35184372088832)) (Fin (884279719003555 / 140737488355328)) = Fin 0"
  by (simp add: fp_mod_def c_fmod_def c_trunc_def)

lemma k392_m1024: "fp_mul f64 (Fin 1024) (Fin (2012227627243645 / 36028797018963968)) = Fin (2012227627243645 / 35184372088832)"
  by (simp add: fp_mul_Fin f64_eval[where e=5] round_half_even_def Let_def)

lemma k392_s1024: "fp_add f64 (Fin 0) (Fin (2012227627243645 / 35184372088832)) = Fin (2012227627243645 / 35184372088832)"
  by (simp add: f64_eval[where e=5] round_half_even_def Let_def)

lemma k392_p1024: "fp_mod f64 (Fin (2012227627243645 / 35184372088832)) (Fin (884279719003555 / 140737488355328)) = Fin (90393037942585 / 140737488355328)"
  by (simp add: fp_mod_def c_fmod_def c_trunc_def)

lemma k392_m326: "fp_mul f64 (Fin 326) (Fin (2012227627243645 / 36028797018963968)) = Fin (2562446119068079 / 140737488355328)"
  by (simp add: fp_mul_Fin f64_eval[where e=4] round_half_even_def Let_def)

lemma k392_s326: "fp_add f64 (Fin (90393037942585 / 140737488355328)) (Fin (2562446119068079 / 140737488355328)) = Fin (331604894626333 / 17592186044416)"
  by (simp add: f64_eval[where e=4] round_half_even_def Let_def)

lemma k392_p326: "fp_mod f64 (Fin (331604894626333 / 17592186044416)) (Fin (884279719003555 / 140737488355328)) = Fin (442139859501777 / 70368744177664)"
  by (simp add: fp_mod_def c_fmod_def c_trunc_def)


lemma inc_392: "phase_increment (Fin 392) = Fin (2012227627243645 / 36028797018963968)"
  by (simp only: phase_increment_def f64_ints np_pi_def k392_a k392_b k392_inc)

lemma phase_392_0_1350: "instantaneous_phase (py_float 392) (py_float 0) 1350 = Fin 0"
  by (simp only: instantaneous_phase_def inc_392 two_pi_eq f64_ints py_float_consts
      k392_m1350 k392_s1350 k392_p1350)

lemma phase_392_0_1024:
  "instantaneous_phase (py_float 392) (py_float 0) 1024 = Fin (90393037942585 / 140737488355328)"
  by (simp only: instantaneous_phase_def inc_392 two_pi_eq f64_ints py_float_consts
      k392_m1024 k392_s1024 k392_p1024)

lemma phase_392_block2_326:
  "instantaneous_phase (py_float 392) (Fin (90393037942585 / 140737488355328)) 326
     = Fin (442139859501777 / 70368744177664)"
  by (simp only: instantaneous_phase_def inc_392 two_pi_eq f64_ints
      k392_m326 k392_s326 k392_p326)

lemma sample_one_block: "fst (generate_square_wave (py_float 392) (py_float 0) (1024 + 1024)) ! 1350 = Fin (1 / 2)"
proof -
  have "fst (generate_square_wave (py_float 392) (py_float 0) (1024 + 1024)) ! 1350
          = square_sample (py_float 392) (py_float 0) 1350"
    by (simp add: generate_square_wave_eq)
  also have "\<dots> = Fin (1 / 2)"
    by (simp add: square_sample_def phase_392_0_1350 np_pi_def AMPLITUDE_eq)
  finally show ?thesis .
qed

lemma sample_two_blocks: "fst (render_blocks (py_float 392) (py_float 0) [1024, 1024]) ! 1350 = Fin (- (1 / 2))"
proof -
  have "fst (render_blocks (py_float 392) (py_float 0) [1024, 1024]) ! 1350
          = square_sample (py_float 392) (Fin (90393037942585 / 140737488355328)) 326"
    by (simp add: generate_square_wave_eq nth_append phase_392_0_1024)
  also have "\<dots> = Fin (- (1 / 2))"
    by (simp add: square_sample_def phase_392_block2_326 np_pi_def AMPLITUDE_eq fp_uminus_def)
  finally show ?thesis .
qed

text \<open>
  C1, as stated, fails in the float arithmetic of the program. At 392 Hz (key \<^verbatim>\<open>g\<close>) from
  phase 0, sample 1350 of one block of 2048 samples has the instantaneous phase
  \<open>fl(1350 \<Delta>) mod 2\<pi> = 0\<close> and is \<open>+0.5\<close>; rendered as two blocks of 1024 (the block size of
  the stream), the same sample is sample 326 of the second block, whose phase
  \<open>fl(p\<^sub>1 + fl(326 \<Delta>)) mod 2\<pi>\<close> is just below \<open>2\<pi>\<close>, and is \<open>-0.5\<close>.
\<close>

theorem phase_continuity_counterexample:
  "fst (render_blocks (py_float 392) (py_float 0) [1024, 1024])
     \<noteq> fst (generate_square_wave (py_float 392) (py_float 0) (1024 + 1024))"
proof
  assume "fst (render_blocks (py_float 392) (py_float 0) [1024, 1024])
            = fst (generate_square_wave (py_float 392) (py_float 0) (1024 + 1024))"
  then have "fst (render_blocks (py_float 392) (py_float 0) [1024, 1024]) ! 1350
            = fst (generate_square_wave (py_float 392) (py_float 0) (1024 + 1024)) ! 1350"
    by (rule arg_cong)
  then show False
    by (simp only: sample_one_block sample_two_blocks) simp
qed

lemma round_half_even_of_int [simp]: "round_half_even (of_int z) = z"
  by (simp add: round_half_even_def)

lemma powi_less_cancel: "(2::rat) powi a < 2 powi b \<Longrightarrow> a < b"
  by (metis not_less power_int_increasing one_le_numeral)

lemma pow2_nat: "0 \<le> p \<Longrightarrow> (of_int (2 ^ nat p) :: rat) = 2 powi p"
  by (simp add: power_int_def)

text \<open>A number \<open>m * 2 ^ k\<close> with \<open>|m| < 2 ^ p\<close> and \<open>k\<close> not below the least exponent is a
  number of the format: rounding keeps it.\<close>

lemma round_to_fixed:
  assumes x: "x = of_int m * 2 powi k" and m: "\<bar>m\<bar> < 2 ^ nat p" and k: "emin - p + 1 \<le> k"
    and p: "0 < p" and fin: "\<bar>x\<bar> < 2 powi (emax + 1)"
  shows "round_to p emin emax x = Fin x"
proof (cases "x = 0")
  case True
  then show ?thesis by (simp add: round_to_def)
next
  case False
  then have pos: "0 < \<bar>x\<bar>" by simp
  define e where "e = max (ilog2 \<bar>x\<bar>) emin"
  have "\<bar>x\<bar> = of_int \<bar>m\<bar> * 2 powi k" by (simp add: x abs_mult)
  also have "\<dots> < of_int (2 ^ nat p) * 2 powi k"
    using m by (intro mult_strict_right_mono) (simp_all only: of_int_less_iff zero_less_power_int zero_less_numeral)
  also have "\<dots> = 2 powi (p + k)"
    using p by (simp only: pow2_nat less_imp_le) (simp add: power_int_add)
  finally have "\<bar>x\<bar> < 2 powi (p + k)" .
  then have "(2::rat) powi ilog2 \<bar>x\<bar> < 2 powi (p + k)"
    using ilog2_bounds[OF pos] by linarith
  then have "ilog2 \<bar>x\<bar> < p + k" by (rule powi_less_cancel)
  then have ek: "e - p + 1 \<le> k" using k by (simp add: e_def)
  define d where "d = nat (k - (e - p + 1))"
  have kd: "k = (e - p + 1) + int d" using ek by (simp add: d_def)
  have "x / 2 powi (e - p + 1) = of_int m * 2 ^ d"
    by (simp add: x kd power_int_add)
  then have xq: "x / 2 powi (e - p + 1) = of_int (m * 2 ^ d)" by simp
  have bk: "of_int (m * 2 ^ d) * 2 powi (e - p + 1) = x"
    by (simp add: x kd power_int_add)
  show ?thesis
    using False fin by (simp add: round_to_def Let_def e_def[symmetric] xq bk del: of_int_mult of_int_power)
qed

text \<open>Every finite result of rounding has that form.\<close>

lemma round_to_form:
  assumes r: "round_to p emin emax x = Fin y" and p: "0 < p"
  shows "\<exists>m k. y = of_int m * 2 powi k \<and> \<bar>m\<bar> < 2 ^ nat p \<and> emin - p + 1 \<le> k"
proof (cases "x = 0")
  case True
  then have "y = of_int 0 * 2 powi (emin - p + 1)" using r by (simp add: round_to_def)
  then show ?thesis by (intro exI[of _ 0] exI[of _ "emin - p + 1"]) simp
next
  case False
  then have pos: "0 < \<bar>x\<bar>" by simp
  define e where "e = max (ilog2 \<bar>x\<bar>) emin"
  define q :: rat where "q = 2 powi (e - p + 1)"
  define z where "z = round_half_even (x / q)"
  have qpos: "0 < q" by (simp add: q_def)
  have y: "y = of_int z * q"
    using r False by (simp add: round_to_def Let_def e_def[symmetric] q_def[symmetric] z_def[symmetric] split: if_splits)
  have "\<bar>x\<bar> < 2 powi (ilog2 \<bar>x\<bar> + 1)" using ilog2_bounds[OF pos] by simp
  also have "\<dots> \<le> 2 powi (e + 1)" by (intro power_int_increasing) (simp_all add: e_def)
  also have "\<dots> = of_int (2 ^ nat p) * q"
    using p by (simp only: pow2_nat less_imp_le q_def) (simp add: power_int_add[symmetric])
  finally have "\<bar>x\<bar> / q < of_int (2 ^ nat p)" using qpos by (simp add: pos_divide_less_eq)
  then have aq: "\<bar>x / q\<bar> < of_int (2 ^ nat p)" using qpos by (simp add: abs_divide del: of_int_power)
  have "- of_int (2 ^ nat p) \<le> x / q" "x / q \<le> of_int (2 ^ nat p)"
    using aq by linarith+
  then have "of_int (- (2 ^ nat p)) \<le> x / q" "x / q \<le> of_int (2 ^ nat p)"
    by (simp_all only: of_int_minus)
  then have zb: "- (2 ^ nat p) \<le> z" "z \<le> 2 ^ nat p"
    using round_half_even_bounds[of "- (2 ^ nat p)" "x / q" "2 ^ nat p"] by (simp_all add: z_def)
  show ?thesis
  proof (cases "\<bar>z\<bar> < 2 ^ nat p")
    case True
    then show ?thesis
      by (intro exI[of _ z] exI[of _ "e - p + 1"]) (simp add: y q_def e_def)
  next
    case False
    then have zc: "z = 2 ^ nat p \<or> z = - (2 ^ nat p)" using zb by linarith
    have "nat p = Suc (nat (p - 1))" using p by simp
    then have pw: "(2::int) ^ nat p = 2 ^ nat (p - 1) * 2" by (simp only: power_Suc2)
    define m :: int where "m = (if 0 < z then 2 ^ nat (p - 1) else - (2 ^ nat (p - 1)))"
    have m: "z = m * 2" "\<bar>m\<bar> = 2 ^ nat (p - 1)"
      using zc by (auto simp: m_def pw)
    have "nat (p - 1) < nat p" using p by simp
    then have "(2::int) ^ nat (p - 1) < 2 ^ nat p" by (intro power_strict_increasing) simp_all
    moreover have "y = of_int m * 2 powi (e - p + 1 + 1)"
      by (simp add: y m(1) q_def power_int_add)
    ultimately show ?thesis
      by (intro exI[of _ m] exI[of _ "e - p + 1 + 1"]) (simp add: m(2) e_def)
  qed
qed

lemma powi2_not_le0 [simp]: "\<not> (2::rat) powi n \<le> 0" "\<not> (2::rat) powi n < 0"
  by (simp_all add: not_le not_less)

lemma c_fmod_range:
  assumes "0 \<le> a" "0 < b"
  shows "0 \<le> c_fmod a b \<and> c_fmod a b < b"
proof -
  have q: "0 \<le> a / b" using assms by simp
  define n where "n = \<lfloor>a / b\<rfloor>"
  have "of_int n \<le> a / b" "a / b < of_int n + 1"
    using floor_correct[of "a / b"] by (simp_all add: n_def)
  then have "of_int n * b \<le> a" "a < (of_int n + 1) * b"
    using assms(2) by (simp_all add: pos_le_divide_eq pos_divide_less_eq)
  then show ?thesis using q by (simp add: c_fmod_def c_trunc_def n_def[symmetric] algebra_simps)
qed

lemma c_fmod_small:
  assumes "0 \<le> a" "a < b"
  shows "c_fmod a b = a"
proof -
  have "0 \<le> a / b" "a / b < 1" using assms by simp_all
  then have "\<lfloor>a / b\<rfloor> = 0" by (simp add: floor_eq_iff)
  then show ?thesis using \<open>0 \<le> a / b\<close> by (simp add: c_fmod_def c_trunc_def)
qed

lemma c_fmod_form:
  assumes a: "a = of_int ma * 2 powi ka" "\<bar>ma\<bar> < 2 ^ P" "L \<le> ka"
    and b: "b = of_int mb * 2 powi kb" "\<bar>mb\<bar> < 2 ^ P" "L \<le> kb"
    and pos: "0 \<le> a" "0 < b"
  shows "\<exists>m k. c_fmod a b = of_int m * 2 powi k \<and> \<bar>m\<bar> < 2 ^ P \<and> L \<le> k"
proof -
  define k0 where "k0 = min ka kb"
  define A where "A = ma * 2 ^ nat (ka - k0)"
  define B where "B = mb * 2 ^ nat (kb - k0)"
  have "(of_int A :: rat) = of_int ma * 2 powi (ka - k0)"
    by (simp add: A_def k0_def power_int_def)
  then have a': "a = of_int A * 2 powi k0"
    by (simp add: a(1) power_int_diff)
  have "(of_int B :: rat) = of_int mb * 2 powi (kb - k0)"
    by (simp add: B_def k0_def power_int_def)
  then have b': "b = of_int B * 2 powi k0"
    by (simp add: b(1) power_int_diff)
  have "0 \<le> (of_int A :: rat)" using pos(1) by (simp add: a' zero_le_mult_iff)
  then have A0: "0 \<le> A" by simp
  have "0 < (of_int B :: rat)" using pos(2) by (simp add: b' zero_less_mult_iff)
  then have B0: "0 < B" by simp
  have quot: "a / b = of_int A / of_int B" by (simp add: a' b')
  have "0 \<le> a / b" using pos by simp
  then have "c_trunc (a / b) = A div B"
    by (simp add: c_trunc_def quot floor_divide_of_int_eq)
  then have "c_fmod a b = of_int A * 2 powi k0 - of_int B * 2 powi k0 * of_int (A div B)"
    by (simp add: c_fmod_def a' b')
  also have "\<dots> = of_int (A - B * (A div B)) * 2 powi k0"
    by (simp add: algebra_simps)
  also have "A - B * (A div B) = A mod B"
    by (simp add: minus_mult_div_eq_mod)
  finally have eq: "c_fmod a b = of_int (A mod B) * 2 powi k0" .
  have r0: "0 \<le> A mod B" "A mod B < B" using B0 by simp_all
  have rA: "A mod B \<le> A" using A0 B0 by (simp add: zmod_le_nonneg_dividend)
  have "A mod B < 2 ^ P"
  proof (cases "ka \<le> kb")
    case True
    then have "A = ma" by (simp add: A_def k0_def)
    then show ?thesis using rA a(2) by simp
  next
    case False
    then have "B = mb" by (simp add: B_def k0_def)
    then show ?thesis using r0(2) b(2) by simp
  qed
  then have "\<bar>A mod B\<bar> < 2 ^ P" using r0(1) by simp
  moreover have "L \<le> k0" using a(3) b(3) by (simp add: k0_def)
  ultimately show ?thesis using eq by blast
qed

lemma round_to_nonneg:
  assumes "0 \<le> x"
  shows "fp_nonneg (round_to p emin emax x)"
proof (cases "x = 0")
  case True
  then show ?thesis by (simp add: round_to_def fp_nonneg_def)
next
  case False
  define q :: rat where "q = 2 powi (max (ilog2 \<bar>x\<bar>) emin - p + 1)"
  have "0 < q" by (simp add: q_def)
  then have "of_int 0 \<le> x / q" using assms by simp
  then have "0 \<le> round_half_even (x / q)"
    using round_half_even_bounds[of 0 "x / q" "\<lceil>x / q\<rceil>"] by (simp add: le_of_int_ceiling)
  then have "0 \<le> of_int (round_half_even (x / q)) * q" using \<open>0 < q\<close> by simp
  then show ?thesis
    using False by (auto simp: round_to_def Let_def q_def[symmetric] fp_nonneg_def)
qed

lemma f64_nonneg: "0 \<le> x \<Longrightarrow> fp_nonneg (f64 x)"
  by (simp add: f64_def round_to_nonneg)

lemma fp_nonneg_cases:
  assumes "fp_nonneg x"
  obtains r where "x = Fin r" "0 \<le> r" | "x = PInf"
  using assms by (cases x) (auto simp: fp_nonneg_def)

lemma phase_increment_nonneg:
  assumes "0 < a"
  shows "fp_nonneg (phase_increment (Fin a))"
proof -
  have "fp_nonneg (f64 (a * 2))" using assms by (intro f64_nonneg) simp
  then have s1: "fp_nonneg (fp_mul f64 (Fin a) (f64_of_int 2))"
    by (simp add: f64_ints fp_mul_Fin)
  define u where "u = fp_mul f64 (Fin a) (f64_of_int 2)"
  define v where "v = fp_mul f64 u np_pi"
  have s2: "fp_nonneg v"
    using s1[folded u_def]
  proof (cases rule: fp_nonneg_cases)
    case (1 r)
    then show ?thesis by (simp add: v_def np_pi_def fp_mul_Fin f64_nonneg)
  next
    case 2
    then show ?thesis by (simp add: v_def np_pi_def fp_mul_def fp_neg_def fp_nonneg_def)
  qed
  have "fp_nonneg (fp_div f64 v (f64_of_int SAMPLE_RATE))"
    using s2
  proof (cases rule: fp_nonneg_cases)
    case (1 r)
    then show ?thesis by (simp add: f64_ints fp_div_Fin f64_nonneg)
  next
    case 2
    then show ?thesis by (simp add: f64_ints fp_div_def fp_neg_def fp_nonneg_def)
  qed
  then show ?thesis by (simp add: phase_increment_def v_def u_def)
qed

lemma scaled_increment:
  assumes "fp_nonneg d" "0 \<le> n"
  shows "fp_mul f64 (f64_of_int n) d = NaN \<or> fp_nonneg (fp_mul f64 (f64_of_int n) d)"
proof -
  have "fp_nonneg (f64_of_int n)" using assms(2) by (simp add: f64_of_int_def f64_nonneg)
  then show ?thesis
  proof (cases rule: fp_nonneg_cases)
    case (1 k)
    from assms(1) show ?thesis
    proof (cases rule: fp_nonneg_cases)
      case (1 r)
      then show ?thesis using \<open>f64_of_int n = Fin k\<close> \<open>0 \<le> k\<close> by (simp add: fp_mul_Fin f64_nonneg)
    next
      case 2
      then show ?thesis using \<open>f64_of_int n = Fin k\<close> \<open>0 \<le> k\<close>
        by (simp add: fp_mul_def fp_neg_def fp_nonneg_def)
    qed
  next
    case 2
    from assms(1) show ?thesis
    proof (cases rule: fp_nonneg_cases)
      case (1 r)
      then show ?thesis using \<open>f64_of_int n = PInf\<close>
        by (simp add: fp_mul_def fp_neg_def fp_nonneg_def)
    next
      case 2
      then show ?thesis using \<open>f64_of_int n = PInf\<close>
        by (simp add: fp_mul_def fp_neg_def fp_nonneg_def)
    qed
  qed
qed

text \<open>The phase returned by a block that starts from a phase \<open>\<ge> 0\<close>: a NaN after an
  overflow, else a float of \<open>[0, 2\<pi>)\<close>, and then the increment is finite.\<close>

lemma threaded_phase:
  assumes "0 < a" "0 \<le> r" "0 \<le> n"
  shows "instantaneous_phase (Fin a) (Fin r) n = NaN
       \<or> (\<exists>q d. instantaneous_phase (Fin a) (Fin r) n = Fin q \<and> 0 \<le> q
              \<and> q < 884279719003555 / 140737488355328 \<and> f64 q = Fin q
              \<and> phase_increment (Fin a) = Fin d)"
proof -
  let ?b = "884279719003555 / 140737488355328 :: rat"
  define y where "y = fp_mul f64 (f64_of_int n) (phase_increment (Fin a))"
  have ip: "instantaneous_phase (Fin a) (Fin r) n = fp_mod f64 (fp_add f64 (Fin r) y) (Fin ?b)"
    by (simp add: instantaneous_phase_def y_def two_pi_eq)
  from scaled_increment[OF phase_increment_nonneg[OF assms(1)] assms(3)]
  consider "y = NaN" | "y = PInf" | s where "y = Fin s" "0 \<le> s"
    unfolding y_def[symmetric] by (auto elim: fp_nonneg_cases)
  then show ?thesis
  proof cases
    case 1
    then show ?thesis by (simp add: ip fp_mod_def)
  next
    case 2
    then show ?thesis by (simp add: ip fp_mod_def)
  next
    case 3
    have fin_d: "\<exists>d. phase_increment (Fin a) = Fin d"
    proof (rule ccontr)
      assume "\<not> ?thesis"
      then have "phase_increment (Fin a) = PInf"
        using phase_increment_nonneg[OF assms(1)] by (auto elim: fp_nonneg_cases)
      moreover have "fp_nonneg (f64_of_int n)"
        using assms(3) by (simp add: f64_of_int_def f64_nonneg)
      ultimately have "y = NaN \<or> y = PInf"
        by (cases "f64_of_int n") (auto simp: y_def fp_mul_def fp_neg_def fp_nonneg_def)
      then show False using 3 by auto
    qed
    have "fp_nonneg (f64 (r + s))" using assms(2) 3(2) by (intro f64_nonneg) simp
    then show ?thesis
    proof (cases rule: fp_nonneg_cases)
      case 2
      then show ?thesis by (simp add: ip 3(1) fp_mod_def)
    next
      case (1 x)
      define q where "q = c_fmod x ?b"
      have range: "0 \<le> q" "q < ?b"
        using c_fmod_range[of x ?b] 1(2) by (simp_all add: q_def)
      from round_to_form[of 53 "- 1022" 1023 "r + s" x] 1(1)
      obtain m k where mk: "x = of_int m * 2 powi k" "\<bar>m\<bar> < 2 ^ 53" "- 1074 \<le> k"
        by (auto simp: f64_def)
      have b: "?b = of_int 884279719003555 * 2 powi (- 47)" by simp
      have "\<exists>m k. c_fmod x ?b = of_int m * 2 powi k \<and> \<bar>m\<bar> < 2 ^ 53 \<and> - 1074 \<le> k"
        by (rule c_fmod_form[where ma = m and ka = k and mb = 884279719003555 and kb = "- 47"])
           (use mk 1(2) in simp_all)
      then obtain m' k' where mk': "q = of_int m' * 2 powi k'" "\<bar>m'\<bar> < 2 ^ 53" "- 1074 \<le> k'"
        by (auto simp: q_def)
      have "\<bar>q\<bar> < 2 powi (1023 + 1)" using range by simp
      then have fixq: "f64 q = Fin q"
        unfolding f64_def using mk' by (intro round_to_fixed[of q m' k']) simp_all
      have "instantaneous_phase (Fin a) (Fin r) n = Fin q"
        using range by (simp add: ip 3(1) 1(1) fp_mod_def q_def[symmetric])
      then show ?thesis using range fixq fin_d by blast
    qed
  qed
qed

lemma restart_phase:
  assumes "0 < a" "0 \<le> r"
  shows "instantaneous_phase (Fin a) (instantaneous_phase (Fin a) (Fin r) (int n)) 0
           = instantaneous_phase (Fin a) (Fin r) (int n)"
proof -
  from threaded_phase[OF assms, of "int n"]
  consider "instantaneous_phase (Fin a) (Fin r) (int n) = NaN"
    | q d where "instantaneous_phase (Fin a) (Fin r) (int n) = Fin q" "0 \<le> q"
        "q < 884279719003555 / 140737488355328" "f64 q = Fin q" "phase_increment (Fin a) = Fin d"
    by auto
  then show ?thesis
  proof cases
    case 1
    then show ?thesis by (simp add: instantaneous_phase_def two_pi_eq fp_mod_def)
  next
    case 2
    have "instantaneous_phase (Fin a) (Fin q) 0 = Fin q"
      using 2(2,3,4)
      by (simp add: instantaneous_phase_def 2(5) two_pi_eq f64_ints fp_mul_Fin f64_0 fp_mod_def c_fmod_small)
    then show ?thesis by (simp only: 2(1))
  qed
qed

lemma wave_prefix:
  "take n (fst (generate_square_wave f p (n + m))) = fst (generate_square_wave f p n)"
  by (simp add: generate_square_wave_eq take_map)

lemma wave_continues:
  assumes "0 < a" "0 \<le> r"
  shows "fst (generate_square_wave (Fin a) (Fin r) (Suc n))
           = fst (generate_square_wave (Fin a) (Fin r) n)
             @ take 1 (fst (generate_square_wave (Fin a) (snd (generate_square_wave (Fin a) (Fin r) n)) (Suc m)))"
proof -
  have "take 1 (fst (generate_square_wave (Fin a) (snd (generate_square_wave (Fin a) (Fin r) n)) (Suc m)))
          = [square_sample (Fin a) (instantaneous_phase (Fin a) (Fin r) (int n)) 0]"
    by (simp add: generate_square_wave_eq take_map upt_conv_Cons del: upt_Suc)
  also have "\<dots> = [square_sample (Fin a) (Fin r) (int n)]"
    by (simp add: square_sample_def restart_phase[OF assms])
  finally show ?thesis by (simp add: generate_square_wave_eq)
qed

text \<open>
  C1, amended. For a frequency \<open>> 0\<close> and a starting phase \<open>\<ge> 0\<close>: a block is exactly the
  prefix of every longer render from the same phase; the phase a block returns is the
  instantaneous phase of the sample after the block; and the next block starts there
  unchanged, so its first sample is the sample the block itself would have produced next.
  Hence two threaded blocks agree with the one-block render up to and including the first
  sample after the boundary. (Later samples of a later block can differ, by rounding, where
  the phase is within rounding error of \<open>0\<close> or \<open>\<pi>\<close>.)
\<close>

theorem phase_threading:
  assumes "0 < a" and "0 \<le> r"
  shows "take n (fst (generate_square_wave (Fin a) (Fin r) (n + m))) = fst (generate_square_wave (Fin a) (Fin r) n)
       \<and> snd (generate_square_wave (Fin a) (Fin r) n) = instantaneous_phase (Fin a) (Fin r) (int n)
       \<and> fst (generate_square_wave (Fin a) (Fin r) (Suc n))
           = fst (generate_square_wave (Fin a) (Fin r) n)
             @ take 1 (fst (generate_square_wave (Fin a) (snd (generate_square_wave (Fin a) (Fin r) n)) (Suc m)))
       \<and> take (Suc n) (fst (render_blocks (Fin a) (Fin r) [n, Suc m]))
           = take (Suc n) (fst (generate_square_wave (Fin a) (Fin r) (n + Suc m)))"
proof -
  let ?w1 = "fst (generate_square_wave (Fin a) (Fin r) n)"
  let ?w2 = "fst (generate_square_wave (Fin a) (snd (generate_square_wave (Fin a) (Fin r) n)) (Suc m))"
  have "fst (render_blocks (Fin a) (Fin r) [n, Suc m]) = ?w1 @ ?w2"
    by (simp add: split_beta)
  then have "take (Suc n) (fst (render_blocks (Fin a) (Fin r) [n, Suc m])) = ?w1 @ take 1 ?w2"
    by simp
  also have "\<dots> = fst (generate_square_wave (Fin a) (Fin r) (Suc n))"
    by (rule wave_continues[OF assms, symmetric])
  also have "\<dots> = take (Suc n) (fst (generate_square_wave (Fin a) (Fin r) (Suc n + m)))"
    by (rule wave_prefix[symmetric])
  finally have "take (Suc n) (fst (render_blocks (Fin a) (Fin r) [n, Suc m]))
           = take (Suc n) (fst (generate_square_wave (Fin a) (Fin r) (n + Suc m)))"
    by simp
  then show ?thesis
    using wave_prefix[of n "Fin a" "Fin r" m] wave_continues[OF assms, of n m]
    by (simp add: generate_square_wave_eq)
qed

theorem phase_threading_witness:
  "(0::rat) < 392 \<and> (0::rat) \<le> 0
   \<and> take 1025 (fst (render_blocks (Fin 392) (Fin 0) [1024, 1024]))
       = take 1025 (fst (generate_square_wave (Fin 392) (Fin 0) 2048))"
proof -
  have a: "(0::rat) < 392" and r: "(0::rat) \<le> 0" by simp_all
  have "take (Suc 1024) (fst (render_blocks (Fin 392) (Fin 0) [1024, Suc 1023]))
       = take (Suc 1024) (fst (generate_square_wave (Fin 392) (Fin 0) (1024 + Suc 1023)))"
    using phase_threading[OF a r, of 1024 1023] by blast
  then show ?thesis by simp
qed

text \<open>
  C2, amended. For a frequency \<open>> 0\<close> and a starting phase \<open>\<ge> 0\<close>, \<open>generate_square_wave\<close>
  returns exactly \<open>n\<close> samples, sample \<open>i\<close> being \<open>+0.5\<close> when \<open>(phase + i \<Delta>) mod 2\<pi> < \<pi>\<close>
  and \<open>-0.5\<close> otherwise, with \<open>\<Delta> = 2\<pi> f / 44100\<close>, and the new phase
  \<open>(phase + n \<Delta>) mod 2\<pi>\<close>, which is a float of \<open>[0, 2\<pi>)\<close>, or NaN when the arithmetic
  overflowed.
\<close>

theorem oscillator_reference:
  assumes "0 < a" and "0 \<le> r"
  shows "length (fst (generate_square_wave (Fin a) (Fin r) n)) = n
       \<and> (\<forall>i<n. fst (generate_square_wave (Fin a) (Fin r) n) ! i
             = (if fp_less (instantaneous_phase (Fin a) (Fin r) (int i)) np_pi
                then Fin (1 / 2) else Fin (- (1 / 2))))
       \<and> snd (generate_square_wave (Fin a) (Fin r) n) = instantaneous_phase (Fin a) (Fin r) (int n)
       \<and> (snd (generate_square_wave (Fin a) (Fin r) n) = NaN
          \<or> (\<exists>q. snd (generate_square_wave (Fin a) (Fin r) n) = Fin q
                \<and> 0 \<le> q \<and> q < 884279719003555 / 140737488355328))"
proof -
  have "instantaneous_phase (Fin a) (Fin r) (int n) = NaN
          \<or> (\<exists>q. instantaneous_phase (Fin a) (Fin r) (int n) = Fin q
                \<and> 0 \<le> q \<and> q < 884279719003555 / 140737488355328)"
    using threaded_phase[OF assms, of "int n"] by auto
  then show ?thesis
    by (simp add: generate_square_wave_eq square_sample_def AMPLITUDE_eq fp_uminus_def)
qed

theorem oscillator_reference_witness:
  "(0::rat) < 392 \<and> (0::rat) \<le> 0
   \<and> length (fst (generate_square_wave (Fin 392) (Fin 0) 1024)) = 1024
   \<and> snd (generate_square_wave (Fin 392) (Fin 0) 1024) = instantaneous_phase (Fin 392) (Fin 0) 1024
   \<and> snd (generate_square_wave (Fin 392) (Fin 0) 1024) = Fin (90393037942585 / 140737488355328)"
proof -
  have a: "(0::rat) < 392" and r: "(0::rat) \<le> 0" by simp_all
  have p: "instantaneous_phase (Fin 392) (Fin 0) 1024 = Fin (90393037942585 / 140737488355328)"
    using phase_392_0_1024 by (simp only: f64_ints py_float_consts)
  show ?thesis
    using oscillator_reference[OF a r, of 1024] p by simp
qed

text \<open>One sample at 392 Hz from a phase just below minus the increment.\<close>

lemma kneg_m1: "fp_mul f64 (Fin 1) (Fin (2012227627243645 / 36028797018963968)) = Fin (2012227627243645 / 36028797018963968)"
  by (simp add: fp_mul_Fin f64_eval[where e="-5"] round_half_even_def Let_def)

lemma kneg_s1: "fp_add f64 (Fin (- (8048910508974581 / 144115188075855872))) (Fin (2012227627243645 / 36028797018963968)) = Fin (- (1 / 144115188075855872))"
  by (simp add: f64_eval[where e="-57"] round_half_even_def Let_def)

lemma kneg_p1: "fp_mod f64 (Fin (- (1 / 144115188075855872))) (Fin (884279719003555 / 140737488355328)) = Fin (884279719003555 / 140737488355328)"
  by (simp add: fp_mod_def c_fmod_def c_trunc_def f64_eval[where e=2] round_half_even_def Let_def)


lemma phase_392_neg:
  "instantaneous_phase (Fin 392) (Fin (- (8048910508974581 / 144115188075855872))) 1
     = Fin (884279719003555 / 140737488355328)"
proof -
  have "f64_of_int 1 = Fin 1" by (simp add: f64_of_int_def f64_1)
  then show ?thesis
    by (simp only: instantaneous_phase_def inc_392 two_pi_eq kneg_m1 kneg_s1 kneg_p1)
qed

text \<open>The NaN case is real: twice the frequency \<open>2 ^ 1023\<close> overflows.\<close>

lemma overflow_gives_NaN: "snd (generate_square_wave (Fin (2 powi 1023)) (Fin 0) 1) = NaN"
proof -
  have "f64 (2 powi 1023 * 2) = PInf"
    by (simp add: f64_eval[where e=1024] round_half_even_def Let_def)
  then have "phase_increment (Fin (2 powi 1023)) = PInf"
    by (simp add: phase_increment_def f64_ints fp_mul_Fin fp_mul_def fp_div_def fp_neg_def np_pi_def)
  moreover have "f64_of_int 1 = Fin 1" by (simp add: f64_of_int_def f64_1)
  ultimately show ?thesis
    by (simp add: generate_square_wave_eq instantaneous_phase_def fp_mul_def fp_neg_def fp_mod_def two_pi_eq)
qed

text \<open>
  C2, as stated for every starting phase, fails: from a phase just below \<open>- \<Delta>\<close> the sum
  \<open>phase + \<Delta>\<close> is \<open>- 1 / 2 ^ 57\<close>, \<^verbatim>\<open>fmod\<close> keeps it, and adding \<open>2\<pi>\<close> rounds to \<open>2\<pi>\<close> itself: the
  new phase is \<open>2\<pi>\<close>, outside \<open>[0, 2\<pi>)\<close>.
\<close>

theorem oscillator_phase_range_counterexample:
  "snd (generate_square_wave (Fin 392) (Fin (- (8048910508974581 / 144115188075855872))) 1) = two_pi
   \<and> \<not> fp_less (snd (generate_square_wave (Fin 392) (Fin (- (8048910508974581 / 144115188075855872))) 1)) two_pi"
proof -
  have "snd (generate_square_wave (Fin 392) (Fin (- (8048910508974581 / 144115188075855872))) 1)
          = Fin (884279719003555 / 140737488355328)"
    using phase_392_neg by (simp add: generate_square_wave_eq)
  then show ?thesis by (simp add: two_pi_eq)
qed

text \<open>
  From that negative phase the boundary itself is not continuous: the block of two samples
  ends on \<open>-0.5\<close> (phase \<open>2\<pi>\<close>), while a block of one sample followed by a new block
  starts the new block on \<open>+0.5\<close> (phase \<open>2\<pi> mod 2\<pi> = 0\<close>). This is why the threading
  property is stated for phases \<open>\<ge> 0\<close>, which is where the program keeps them.
\<close>

lemma restart_from_two_pi:
  "instantaneous_phase (Fin 392) (Fin (884279719003555 / 140737488355328)) 0 = Fin 0"
proof -
  have "f64 (884279719003555 / 140737488355328) = Fin (884279719003555 / 140737488355328)"
    by (simp add: f64_eval[where e=2] round_half_even_def Let_def)
  then show ?thesis
    by (simp add: instantaneous_phase_def inc_392 two_pi_eq f64_ints fp_mul_Fin f64_0
        fp_mod_def c_fmod_def c_trunc_def)
qed

lemma negative_phase_boundary:
  "fst (generate_square_wave (Fin 392) (Fin (- (8048910508974581 / 144115188075855872))) 2) ! 1 = Fin (- (1 / 2))"
  "fst (generate_square_wave (Fin 392)
      (snd (generate_square_wave (Fin 392) (Fin (- (8048910508974581 / 144115188075855872))) 1)) 1) ! 0
     = Fin (1 / 2)"
proof -
  show "fst (generate_square_wave (Fin 392) (Fin (- (8048910508974581 / 144115188075855872))) 2) ! 1 = Fin (- (1 / 2))"
    using phase_392_neg
    by (simp add: generate_square_wave_eq square_sample_def np_pi_def AMPLITUDE_eq fp_uminus_def nth_append)
  show "fst (generate_square_wave (Fin 392)
      (snd (generate_square_wave (Fin 392) (Fin (- (8048910508974581 / 144115188075855872))) 1)) 1) ! 0
     = Fin (1 / 2)"
    using phase_392_neg restart_from_two_pi
    by (simp add: generate_square_wave_eq square_sample_def np_pi_def AMPLITUDE_eq)
qed

section \<open>Duty cycle\<close>

subsection \<open>The error of a rounding\<close>

lemma round_half_even_err: "\<bar>of_int (round_half_even y) - y\<bar> \<le> 1 / 2"
proof -
  have "of_int \<lfloor>y\<rfloor> \<le> y" "y < of_int \<lfloor>y\<rfloor> + 1"
    using floor_correct[of y] by simp_all
  then show ?thesis
    by (auto simp: round_half_even_def Let_def abs_le_iff)
qed

text \<open>The error of a rounding is at most half the spacing of the binade of its argument.\<close>

lemma round_to_err:
  assumes "round_to p emin emax x = Fin y" "x \<noteq> 0"
  shows "\<bar>y - x\<bar> \<le> 2 powi (max (ilog2 \<bar>x\<bar>) emin - p + 1) / 2"
proof -
  define q :: rat where "q = 2 powi (max (ilog2 \<bar>x\<bar>) emin - p + 1)"
  define z where "z = round_half_even (x / q)"
  have qpos: "0 < q" by (simp add: q_def)
  have y: "y = of_int z * q"
    using assms by (simp add: round_to_def Let_def q_def[symmetric] z_def[symmetric] split: if_splits)
  have "\<bar>of_int z - x / q\<bar> \<le> 1 / 2" unfolding z_def by (rule round_half_even_err)
  then have "\<bar>of_int z - x / q\<bar> * q \<le> 1 / 2 * q"
    using qpos by (intro mult_right_mono) simp_all
  moreover have "\<bar>of_int z - x / q\<bar> * q = \<bar>y - x\<bar>"
  proof -
    have "\<bar>of_int z - x / q\<bar> * q = \<bar>(of_int z - x / q) * q\<bar>"
      using qpos by (simp add: abs_mult)
    also have "(of_int z - x / q) * q = y - x"
      using qpos by (simp add: y algebra_simps)
    finally show ?thesis .
  qed
  ultimately have "\<bar>y - x\<bar> \<le> 1 / 2 * q" by (simp only:)
  then show ?thesis by (simp add: q_def)
qed

lemma powi2_add: "(2::rat) powi (m + n) = 2 powi m * 2 powi n"
  by (simp add: power_int_add)

lemma ilog2_less:
  assumes "0 < x" "x < 2 powi k"
  shows "ilog2 x < k"
proof -
  have "(2::rat) powi ilog2 x < 2 powi k" using ilog2_bounds[OF assms(1)] assms(2) by linarith
  then show ?thesis by (rule powi_less_cancel)
qed

text \<open>Absolute error of a binary64 rounding below \<open>2 ^ k\<close>.\<close>

lemma f64_abs_err:
  assumes "0 \<le> x" "x < 2 powi k" "- 1021 \<le> k" "f64 x = Fin y"
  shows "\<bar>y - x\<bar> \<le> 2 powi (k - 54)"
proof (cases "x = 0")
  case True
  then show ?thesis using assms(4) by (simp add: f64_0)
next
  case False
  then have pos: "0 < \<bar>x\<bar>" "\<bar>x\<bar> = x" using assms(1) by simp_all
  have "ilog2 \<bar>x\<bar> < k" using ilog2_less[of x k] assms(1,2) False by (simp add: pos(2))
  then have "max (ilog2 \<bar>x\<bar>) (- 1022) - 53 + 1 \<le> k - 53" using assms(3) by simp
  then have "(2::rat) powi (max (ilog2 \<bar>x\<bar>) (- 1022) - 53 + 1) \<le> 2 powi (k - 53)"
    by (intro power_int_increasing) simp_all
  moreover have "\<bar>y - x\<bar> \<le> 2 powi (max (ilog2 \<bar>x\<bar>) (- 1022) - 53 + 1) / 2"
    using round_to_err[of 53 "- 1022" 1023 x y] assms(4) False by (simp add: f64_def)
  ultimately have "\<bar>y - x\<bar> \<le> 2 powi (k - 53) / 2" by linarith
  also have "\<dots> = 2 powi (k - 54)"
  proof -
    have "(2::rat) powi (k - 53) = 2 powi (k - 54) * 2"
      using powi2_add[of "k - 54" 1] by simp
    then show ?thesis by simp
  qed
  finally show ?thesis .
qed

text \<open>Relative error of a binary64 rounding in the normal range.\<close>

lemma f64_rel_err:
  assumes "2 powi (- 1022) \<le> x" "f64 x = Fin y"
  shows "\<bar>y - x\<bar> \<le> x * 2 powi (- 53)"
proof -
  have xpos: "0 < x" using assms(1) by (rule less_le_trans[rotated]) simp
  then have ax: "\<bar>x\<bar> = x" "x \<noteq> 0" by simp_all
  define e where "e = ilog2 x"
  have eb: "2 powi e \<le> x" using ilog2_bounds[OF xpos] by (simp add: e_def)
  have "(2::rat) powi (- 1022) < 2 powi (e + 1)"
    using assms(1) ilog2_bounds[OF xpos] by (simp add: e_def)
  then have "- 1022 < e + 1" by (rule powi_less_cancel)
  then have me: "max e (- 1022) = e" by simp
  have "\<bar>y - x\<bar> \<le> 2 powi (e - 53 + 1) / 2"
    using round_to_err[of 53 "- 1022" 1023 x y] assms(2) ax by (simp add: f64_def e_def[symmetric] me)
  also have "\<dots> = 2 powi e * 2 powi (- 53)"
  proof -
    have "(2::rat) powi (e - 53 + 1) = 2 powi e * 2 powi (- 52)"
      using powi2_add[of e "- 52"] by simp
    then show ?thesis by simp
  qed
  also have "\<dots> \<le> x * 2 powi (- 53)"
    using eb by (intro mult_right_mono) simp_all
  finally show ?thesis .
qed

lemma f64_fin:
  assumes "0 \<le> x" "x \<le> of_int M" "M < 2 ^ 53"
  shows "\<exists>y. f64 x = Fin y \<and> 0 \<le> y \<and> y \<le> of_int M"
proof -
  have "- of_int M \<le> x" using assms by linarith
  from round_to_bounded[OF this assms(2), of 53 "- 1022" 1023] assms(3)
  obtain y where y: "f64 x = Fin y" "y \<le> of_int M" by (auto simp: f64_def)
  have "fp_nonneg (f64 x)" using assms(1) by (rule f64_nonneg)
  then have "0 \<le> y" by (simp add: y fp_nonneg_def)
  with y show ?thesis by blast
qed

lemma f64_rel:
  assumes "2 powi (- 64) \<le> x" "x \<le> of_int M" "M < 2 ^ 53"
  shows "\<exists>y. f64 x = Fin y \<and> x * (1 - 2 powi (- 53)) \<le> y \<and> y \<le> x * (1 + 2 powi (- 53))"
proof -
  have "(0::rat) \<le> 2 powi (- 64)" by simp
  then have "0 \<le> x" using assms(1) by (rule order_trans)
  from f64_fin[OF this assms(2,3)] obtain y where y: "f64 x = Fin y" by blast
  have "(2::rat) powi (- 1022) \<le> 2 powi (- 64)" by (intro power_int_increasing) simp_all
  then have "2 powi (- 1022) \<le> x" using assms(1) by (rule order_trans)
  from f64_rel_err[OF this y]
  have "y - x \<le> x * 2 powi (- 53)" "- (y - x) \<le> x * 2 powi (- 53)" by (simp_all only: abs_le_iff)
  then have "x * (1 - 2 powi (- 53)) \<le> y \<and> y \<le> x * (1 + 2 powi (- 53))"
    by (simp add: algebra_simps; linarith)
  then show ?thesis using y by blast
qed

lemma f64_of_nat:
  assumes "n < 2 ^ 53"
  shows "f64_of_int (int n) = Fin (of_nat n)"
proof -
  have "(of_nat n :: rat) < of_nat (2 ^ 53)" using assms by (simp only: of_nat_less_iff)
  then have "\<bar>of_nat n :: rat\<bar> < 2 powi (1023 + 1)" by simp
  moreover have "\<bar>int n\<bar> < 2 ^ nat 53" using assms by simp
  ultimately have "round_to 53 (- 1022) 1023 (of_nat n) = Fin (of_nat n)"
    by (intro round_to_fixed[where m = "int n" and k = 0]) simp_all
  then show ?thesis by (simp add: f64_of_int_def f64_def)
qed


lemma round_half_even_near:
  assumes "of_int M \<le> y" "y < of_int M + 1 / 2"
  shows "round_half_even y = M"
proof -
  have "\<lfloor>y\<rfloor> = M" using assms by (simp add: floor_eq_iff)
  then show ?thesis using assms by (simp add: round_half_even_def Let_def)
qed

lemma c_fmod_half:
  assumes "0 \<le> s" "0 < H"
  shows "(c_fmod s (2 * H) < H) = even \<lfloor>s / H\<rfloor>"
proof -
  define y where "y = s / H"
  define n where "n = \<lfloor>y / 2\<rfloor>"
  have s: "s = y * H" using assms(2) by (simp add: y_def)
  have y0: "0 \<le> y" using assms by (simp add: y_def)
  have q: "s / (2 * H) = y / 2" by (simp add: y_def)
  have n: "of_int n \<le> y / 2" "y / 2 < of_int n + 1"
    using floor_correct[of "y / 2"] by (simp_all add: n_def)
  have "c_fmod s (2 * H) = s - 2 * H * of_int n"
    using y0 by (simp add: c_fmod_def c_trunc_def q n_def)
  also have "\<dots> = (y - 2 * of_int n) * H" by (simp add: s algebra_simps)
  finally have "(c_fmod s (2 * H) < H) = ((y - 2 * of_int n) * H < 1 * H)" by simp
  also have "\<dots> = (y - 2 * of_int n < 1)"
    using assms(2) by (simp only: mult_less_cancel_right_pos)
  finally have c: "(c_fmod s (2 * H) < H) = (y - 2 * of_int n < 1)" .
  show ?thesis
  proof (cases "y - 2 * of_int n < 1")
    case True
    then have "of_int (2 * n) \<le> y \<and> y < of_int (2 * n) + 1" using n by simp
    then have "\<lfloor>y\<rfloor> = 2 * n" by (simp only: floor_eq_iff)
    then show ?thesis using c True by (simp add: y_def)
  next
    case False
    then have "of_int (2 * n + 1) \<le> y \<and> y < of_int (2 * n + 1) + 1" using n by simp
    then have "\<lfloor>y\<rfloor> = 2 * n + 1" by (simp only: floor_eq_iff)
    then show ?thesis using c False by (simp add: y_def)
  qed
qed

lemma count_two_values:
  assumes "\<And>y. y \<in> set xs \<Longrightarrow> y = a \<or> y = b" "a \<noteq> b"
  shows "count_list xs a + count_list xs b = length xs"
  using assms by (induction xs) auto

lemma two_roundings:
  fixes s t r x :: rat
  assumes "\<bar>t - x\<bar> \<le> 2 powi (3 - 54)" "\<bar>s - (r + t)\<bar> \<le> 2 powi (4 - 54)"
  shows "\<bar>s - (r + x)\<bar> \<le> 2 powi (- 49)"
proof -
  have n: "(2::rat) powi (3 - 54) + 2 powi (4 - 54) \<le> 2 powi (- 49)" by simp
  have "t - x \<le> 2 powi (3 - 54)" "- (t - x) \<le> 2 powi (3 - 54)"
    using assms(1) by (simp_all only: abs_le_iff)
  moreover have "s - (r + t) \<le> 2 powi (4 - 54)" "- (s - (r + t)) \<le> 2 powi (4 - 54)"
    using assms(2) by (simp_all only: abs_le_iff)
  ultimately show ?thesis using n by (intro abs_leI) linarith+
qed

subsection \<open>Counting the samples of a period\<close>

lemma count_filter_card: "length (filter P [0..<n]) = card {i. i < n \<and> P i}"
proof (induction n)
  case 0
  show ?case by simp
next
  case (Suc n)
  have "{i. i < Suc n \<and> P i} = (if P n then insert n {i. i < n \<and> P i} else {i. i < n \<and> P i})"
    by (auto simp: less_Suc_eq)
  then show ?case using Suc by simp
qed

lemma run_width:
  fixes S :: "nat set"
  assumes "finite S" "S \<noteq> {}"
  shows "card S \<le> Max S - Min S + 1"
proof -
  have "S \<subseteq> {Min S..Max S}" using assms by auto
  then have "card S \<le> card {Min S..Max S}" by (intro card_mono) simp_all
  then show ?thesis by simp
qed

lemma of_nat_mult_less_cancel:
  fixes D :: rat
  assumes "of_nat a * D < of_nat b * D" "0 < D"
  shows "a < b"
proof -
  have "(of_nat a :: rat) < of_nat b" using assms by (simp only: mult_less_cancel_right_pos)
  then show ?thesis by (simp only: of_nat_less_iff)
qed

text \<open>
  The count. \<open>N\<close> points \<open>z i\<close> lie within \<open>e\<close> of an arithmetic progression of step \<open>D\<close>, and
  \<open>N\<close> steps advance two units up to less than a step. The points then visit at most three
  consecutive unit intervals, a unit interval holds at most \<open>N / 2 + 1\<close> of them, and one
  that is crossed holds at least \<open>N / 2 - 1\<close>: the number of points in unit intervals of
  even index is \<open>N / 2\<close> up to one.
\<close>

lemma half_count:
  fixes z :: "nat \<Rightarrow> rat" and c D e :: rat
  assumes approx: "\<And>i. i < N \<Longrightarrow> \<bar>z i - (c + of_nat i * D)\<bar> \<le> e"
    and period: "\<bar>of_nat N * D - 2\<bar> + 4 * e \<le> D" and e: "0 \<le> e"
  defines "h \<equiv> length (filter (\<lambda>i. even \<lfloor>z i\<rfloor>) [0..<N])"
  shows "2 * h \<le> N + 2 \<and> N \<le> 2 * h + 2"
proof (cases "N = 0")
  case True
  then show ?thesis by (simp add: h_def)
next
  case False
  then have N: "0 < N" by simp
  define m where "m i = \<lfloor>z i\<rfloor>" for i
  define cnt where "cnt v = card {i. i < N \<and> m i = v}" for v
  have per: "2 - D + 4 * e \<le> of_nat N * D" "of_nat N * D \<le> 2 + D - 4 * e"
    using period by linarith+
  have D: "0 < D" "2 * e < D"
  proof -
    have "0 \<le> D" using period e by linarith
    moreover have "D \<noteq> 0"
    proof
      assume "D = 0"
      then show False using period e by simp
    qed
    ultimately show "0 < D" by simp
    then show "2 * e < D" using period e by linarith
  qed
  have fl: "of_int (m i) \<le> z i" "z i < of_int (m i) + 1" for i
    using floor_correct[of "z i"] by (simp_all add: m_def)
  have diff: "of_nat (j - i) * D - 2 * e \<le> z j - z i \<and> z j - z i \<le> of_nat (j - i) * D + 2 * e"
    if "i \<le> j" "j < N" for i j
  proof -
    have "(c + of_nat j * D) - (c + of_nat i * D) = of_nat (j - i) * D"
      using that(1) by (simp add: of_nat_diff algebra_simps)
    moreover have "i < N" using that by simp
    ultimately show ?thesis using approx[of i] approx[of j] that(2) by linarith
  qed
  have step: "D \<le> of_nat (j - i) * D" if "i < j" for i j
  proof -
    have "(1::rat) \<le> of_nat (j - i)" using that by simp
    then have "1 * D \<le> of_nat (j - i) * D" using D(1) by (intro mult_right_mono) simp_all
    then show ?thesis by simp
  qed
  have mono: "m i \<le> m j" if "i \<le> j" "j < N" for i j
  proof (cases "i = j")
    case True
    then show ?thesis by simp
  next
    case False
    then have "i < j" using that(1) by simp
    then have "z i < z j" using diff[OF that] step[of i j] D(2) by linarith
    then have "z i \<le> z j" by simp
    then show ?thesis unfolding m_def by (rule floor_mono)
  qed
  have close: "of_nat (j - i) * D < 1 + 2 * e" if "i \<le> j" "j < N" "m i = m j" for i j
    using diff[OF that(1,2)] fl(1)[of i] fl(2)[of j] that(3) by linarith
  have far: "1 - 2 * e < of_nat (j - i) * D" if "i \<le> j" "j < N" "m i + 2 \<le> m j" for i j
  proof -
    have "(of_int (m i + 2) :: rat) \<le> of_int (m j)" using that(3) by (simp only: of_int_le_iff)
    then show ?thesis using diff[OF that(1,2)] fl(2)[of i] fl(1)[of j] by (simp; linarith)
  qed
  have span: "m i \<le> m 0 + 2" if "i < N" for i
  proof (rule ccontr)
    assume "\<not> m i \<le> m 0 + 2"
    then have "m 0 + 3 \<le> m i" by simp
    then have "(of_int (m 0 + 3) :: rat) \<le> of_int (m i)" by (simp only: of_int_le_iff)
    then have "2 < z i - z 0" using fl(2)[of 0] fl(1)[of i] by (simp; linarith)
    then have "2 - 2 * e < of_nat (i - 0) * D" using diff[of 0 i] that by (simp; linarith)
    moreover have "of_nat (i - 0) * D \<le> of_nat (N - 1) * D"
      using that D(1) by (intro mult_right_mono) simp_all
    moreover have "of_nat (N - 1) * D = of_nat N * D - D"
      using N by (simp add: of_nat_diff algebra_simps)
    ultimately show False using per(2) e by linarith
  qed
  have range: "m i = m 0 \<or> m i = m 0 + 1 \<or> m i = m 0 + 2" if "i < N" for i
    using mono[of 0 i] span[OF that] that by auto
  have fin: "finite {i. i < N \<and> m i = v}" for v by simp
  txt \<open>A unit interval holds less than \<open>(1 + 2 e) / D + 1\<close> points.\<close>
  have upper: "of_nat (cnt v) * D < 1 + 2 * e + D" for v
  proof (cases "{i. i < N \<and> m i = v} = {}")
    case True
    have "cnt v = 0" unfolding cnt_def True by simp
    then show ?thesis using D e by simp
  next
    case ne: False
    define S where "S = {i. i < N \<and> m i = v}"
    have S: "finite S" "S \<noteq> {}" using ne by (simp_all add: S_def)
    have a: "Min S \<in> S" and b: "Max S \<in> S" using S by (simp_all add: Min_in Max_in)
    have ab: "Min S \<le> Max S" using S by simp
    have "of_nat (Max S - Min S) * D < 1 + 2 * e"
      using a b ab by (intro close) (simp_all add: S_def)
    moreover have "of_nat (card S) * D \<le> of_nat (Max S - Min S + 1) * D"
      using run_width[OF S] D(1) by (intro mult_right_mono) simp_all
    moreover have "of_nat (Max S - Min S + 1) * D = of_nat (Max S - Min S) * D + D"
      by (simp add: algebra_simps)
    ultimately show ?thesis by (simp add: cnt_def S_def[symmetric])
  qed
  have bound: "2 * cnt v \<le> N + 2" for v
  proof -
    have "of_nat (2 * cnt v) * D = 2 * (of_nat (cnt v) * D)" by simp
    also have "\<dots> < 2 + 4 * e + 2 * D" using upper[of v] by linarith
    also have "\<dots> \<le> of_nat N * D + 3 * D" using per(1) by linarith
    also have "\<dots> = of_nat (N + 3) * D" by (simp add: algebra_simps)
    finally have "2 * cnt v < N + 3" using D(1) by (rule of_nat_mult_less_cancel)
    then show ?thesis by simp
  qed
  txt \<open>The three intervals hold all points.\<close>
  have all: "{i. i < N} = {i. i < N \<and> m i = m 0} \<union> {i. i < N \<and> m i = m 0 + 1} \<union> {i. i < N \<and> m i = m 0 + 2}"
    using range by auto
  have total: "N = cnt (m 0) + cnt (m 0 + 1) + cnt (m 0 + 2)"
  proof -
    have "card {i. i < N} = card ({i. i < N \<and> m i = m 0} \<union> {i. i < N \<and> m i = m 0 + 1})
            + card {i. i < N \<and> m i = m 0 + 2}"
      unfolding all by (intro card_Un_disjoint) auto
    also have "card ({i. i < N \<and> m i = m 0} \<union> {i. i < N \<and> m i = m 0 + 1})
            = card {i. i < N \<and> m i = m 0} + card {i. i < N \<and> m i = m 0 + 1}"
      by (intro card_Un_disjoint) auto
    finally show ?thesis by (simp add: cnt_def)
  qed
  have hcard: "h = card {i. i < N \<and> even (m i)}"
    by (simp add: h_def count_filter_card m_def)
  have par_even: "even (m i) = (m i = m 0 \<or> m i = m 0 + 2)" if "i < N" "even (m 0)" for i
    using range[OF that(1)] that(2) by auto
  have par_odd: "even (m i) = (m i = m 0 + 1)" if "i < N" "odd (m 0)" for i
    using range[OF that(1)] that(2) by auto
  have heven: "h = cnt (m 0) + cnt (m 0 + 2)" if "even (m 0)"
  proof -
    have "{i. i < N \<and> even (m i)} = {i. i < N \<and> m i = m 0} \<union> {i. i < N \<and> m i = m 0 + 2}"
      using par_even[OF _ that] by auto
    moreover have "card ({i. i < N \<and> m i = m 0} \<union> {i. i < N \<and> m i = m 0 + 2})
            = card {i. i < N \<and> m i = m 0} + card {i. i < N \<and> m i = m 0 + 2}"
      by (intro card_Un_disjoint) auto
    ultimately show ?thesis by (simp add: hcard cnt_def)
  qed
  have hodd: "h = cnt (m 0 + 1)" if "odd (m 0)"
  proof -
    have "{i. i < N \<and> even (m i)} = {i. i < N \<and> m i = m 0 + 1}"
      using par_odd[OF _ that] by auto
    then show ?thesis by (simp add: hcard cnt_def)
  qed
  txt \<open>The middle interval, once crossed, holds more than \<open>(1 - 2 e) / D - 1\<close> points.\<close>
  have middle: "N \<le> 2 * cnt (m 0 + 1) + 2" if "0 < cnt (m 0 + 2)"
  proof -
    define A where "A = {i. i < N \<and> m i = m 0}"
    define C where "C = {i. i < N \<and> m i = m 0 + 2}"
    have A: "finite A" "A \<noteq> {}" using N by (auto simp: A_def)
    have cC: "0 < card C" using that by (simp add: C_def cnt_def)
    have C: "finite C" "C \<noteq> {}"
    proof -
      show "finite C" by (simp add: C_def)
      show "C \<noteq> {}" using cC by auto
    qed
    define a where "a = Max A"
    define b where "b = Min C"
    have a: "a < N" "m a = m 0" using Max_in[OF A] by (simp_all add: a_def A_def)
    have b: "b < N" "m b = m 0 + 2" using Min_in[OF C] by (simp_all add: b_def C_def)
    have ab: "a < b"
    proof (rule ccontr)
      assume "\<not> a < b"
      then have "m b \<le> m a" using a(1) by (intro mono) simp_all
      then show False using a(2) b(2) by simp
    qed
    have mid: "m i = m 0 + 1" if i: "a < i" "i < b" for i
    proof -
      have iN: "i < N" using i(2) b(1) by simp
      have "i \<notin> A" using Max_ge[OF A(1), of i] i(1) by (auto simp: a_def)
      moreover have "i \<notin> C" using Min_le[OF C(1), of i] i(2) by (auto simp: b_def)
      ultimately show ?thesis using range[OF iN] iN by (auto simp: A_def C_def)
    qed
    have "{a + 1..<b} \<subseteq> {i. i < N \<and> m i = m 0 + 1}" using mid b(1) by auto
    then have "card {a + 1..<b} \<le> cnt (m 0 + 1)"
      unfolding cnt_def by (intro card_mono) simp_all
    then have B: "b - a \<le> cnt (m 0 + 1) + 1" by simp
    have "1 - 2 * e < of_nat (b - a) * D"
      using ab b(1) a(2) b(2) by (intro far) simp_all
    also have "\<dots> \<le> of_nat (cnt (m 0 + 1) + 1) * D"
      using B D(1) by (intro mult_right_mono) simp_all
    finally have "2 - 4 * e < 2 * (of_nat (cnt (m 0 + 1) + 1) * D)" by linarith
    then have "of_nat N * D - D < 2 * (of_nat (cnt (m 0 + 1) + 1) * D)" using per(2) by linarith
    then have "of_nat N * D < of_nat (2 * cnt (m 0 + 1) + 3) * D" by (simp add: algebra_simps)
    then have "N < 2 * cnt (m 0 + 1) + 3" using D(1) by (rule of_nat_mult_less_cancel)
    then show ?thesis by simp
  qed
  show ?thesis
  proof (cases "0 < cnt (m 0 + 2)")
    case True
    have "N \<le> 2 * cnt (m 0 + 1) + 2" "2 * cnt (m 0 + 1) \<le> N + 2"
      using middle[OF True] bound[of "m 0 + 1"] by simp_all
    then show ?thesis using total heven hodd by (cases "even (m 0)") simp_all
  next
    case False
    then have "N = cnt (m 0) + cnt (m 0 + 1)" using total by simp
    then show ?thesis
      using bound[of "m 0"] bound[of "m 0 + 1"] heven hodd False by (cases "even (m 0)") simp_all
  qed
qed

subsection \<open>The samples of one period\<close>

text \<open>
  The phase of a sample before the reduction modulo \<open>2\<pi>\<close> is within \<open>2\<^sup>-\<^sup>4\<^sup>9\<close> of
  \<open>phase + i \<Delta>\<close>, and \<open>N \<Delta>\<close> differs from \<open>2\<pi>\<close> by less than \<open>\<Delta>\<close> when \<open>N\<close> differs from the period
  by less than a sample; a sample is \<open>+0.5\<close> exactly when that phase lies in a half period of
  even index.
\<close>

lemma instantaneous_phase_unwrapped:
  "instantaneous_phase freq ph i = fp_mod f64 (unwrapped_phase freq ph i) two_pi"
  by (simp add: instantaneous_phase_def unwrapped_phase_def)

text \<open>The increment is \<open>2\<pi> f / 44100\<close> up to three roundings.\<close>

lemma increment_bounds:
  assumes "2 powi (- 25) \<le> a" "a \<le> 2822400"
  shows "\<exists>d. phase_increment (Fin a) = Fin d
           \<and> 884279719003555 / 140737488355328 / 44100 * (1 - 2 powi (- 53)) ^ 3 * a \<le> d
           \<and> d \<le> 884279719003555 / 140737488355328 / 44100 * (1 + 2 powi (- 53)) ^ 3 * a"
proof -
  have a0: "1 / 33554432 \<le> a" using assms(1) by simp
  obtain y1 where y1: "f64 (a * 2) = Fin y1"
    "a * 2 * (1 - 2 powi (- 53)) \<le> y1" "y1 \<le> a * 2 * (1 + 2 powi (- 53))"
    using f64_rel[of "a * 2" 5644800] a0 assms(2) by auto
  obtain y2 where y2: "f64 (y1 * (884279719003555 / 281474976710656)) = Fin y2"
    "y1 * (884279719003555 / 281474976710656) * (1 - 2 powi (- 53)) \<le> y2"
    "y2 \<le> y1 * (884279719003555 / 281474976710656) * (1 + 2 powi (- 53))"
    using f64_rel[of "y1 * (884279719003555 / 281474976710656)" 20000000] y1(2,3) a0 assms(2) by auto
  obtain d where d: "f64 (y2 / 44100) = Fin d"
    "y2 / 44100 * (1 - 2 powi (- 53)) \<le> d" "d \<le> y2 / 44100 * (1 + 2 powi (- 53))"
    using f64_rel[of "y2 / 44100" 500] y2(2,3) y1(2,3) a0 assms(2) by auto
  have "fp_mul f64 (Fin a) (f64_of_int 2) = Fin y1"
    by (simp only: f64_ints fp_mul_Fin y1(1))
  moreover have "fp_mul f64 (Fin y1) np_pi = Fin y2"
    by (simp only: np_pi_def fp_mul_Fin y2(1))
  moreover have "fp_div f64 (Fin y2) (f64_of_int SAMPLE_RATE) = Fin d"
    by (simp add: f64_ints fp_div_Fin d(1))
  ultimately have inc: "phase_increment (Fin a) = Fin d"
    by (simp only: phase_increment_def)
  have "884279719003555 / 140737488355328 / 44100 * (1 - 2 powi (- 53)) ^ 3 * a \<le> d"
    "d \<le> 884279719003555 / 140737488355328 / 44100 * (1 + 2 powi (- 53)) ^ 3 * a"
    using y1(2,3) y2(2,3) d(2,3) by (simp_all add: power3_eq_cube)
  then show ?thesis using inc by blast
qed

text \<open>The phase of a sample before the reduction, up to two roundings.\<close>

lemma sample_phase:
  assumes d: "phase_increment (Fin a) = Fin d" "0 \<le> d"
    and i: "i < 2 ^ 53" "of_nat i * d \<le> 7" and r: "0 \<le> r" "r < 7"
  shows "\<exists>s. unwrapped_phase (Fin a) (Fin r) (int i) = Fin s
           \<and> instantaneous_phase (Fin a) (Fin r) (int i) = Fin (c_fmod s (884279719003555 / 140737488355328))
           \<and> 0 \<le> s \<and> \<bar>s - (r + of_nat i * d)\<bar> \<le> 2 powi (- 49)"
proof -
  have fi: "f64_of_int (int i) = Fin (of_nat i)" using i(1) by (rule f64_of_nat)
  have x: "0 \<le> of_nat i * d" using d(2) by simp
  obtain t where t: "f64 (of_nat i * d) = Fin t" "0 \<le> t" "t \<le> 8"
    using f64_fin[of "of_nat i * d" 8] x i(2) by auto
  have te: "\<bar>t - of_nat i * d\<bar> \<le> 2 powi (3 - 54)"
    using x i(2) by (intro f64_abs_err[OF _ _ _ t(1)]) simp_all
  obtain s where s: "f64 (r + t) = Fin s" "0 \<le> s"
    using f64_fin[of "r + t" 16] r t(2,3) by auto
  have se: "\<bar>s - (r + t)\<bar> \<le> 2 powi (4 - 54)"
    using r t(2,3) by (intro f64_abs_err[OF _ _ _ s(1)]) simp_all
  have err: "\<bar>s - (r + of_nat i * d)\<bar> \<le> 2 powi (- 49)"
    using te se by (rule two_roundings)
  have u: "unwrapped_phase (Fin a) (Fin r) (int i) = Fin s"
    by (simp add: unwrapped_phase_def d(1) fi fp_mul_Fin t(1) s(1))
  have "0 \<le> c_fmod s (884279719003555 / 140737488355328)"
    using c_fmod_range[of s "884279719003555 / 140737488355328"] s(2) by simp
  then have "instantaneous_phase (Fin a) (Fin r) (int i) = Fin (c_fmod s (884279719003555 / 140737488355328))"
    by (simp add: instantaneous_phase_unwrapped u two_pi_eq fp_mod_def Let_def)
  then show ?thesis using u s(2) err by blast
qed

text \<open>A sample is \<open>+0.5\<close> exactly when its phase before the reduction lies in a half period of
  even index.\<close>

lemma sample_high:
  assumes "unwrapped_phase (Fin a) (Fin r) i = Fin s" "0 \<le> s"
  shows "(square_sample (Fin a) (Fin r) i = AMPLITUDE) = even \<lfloor>s / (884279719003555 / 281474976710656)\<rfloor>"
proof -
  let ?P = "884279719003555 / 140737488355328 :: rat"
  let ?H = "884279719003555 / 281474976710656 :: rat"
  have PH: "?P = 2 * ?H" by simp
  have "(c_fmod s (2 * ?H) < ?H) = even \<lfloor>s / ?H\<rfloor>"
    using assms(2) by (intro c_fmod_half) simp_all
  then have c: "(c_fmod s ?P < ?H) = even \<lfloor>s / ?H\<rfloor>" by (simp only: PH)
  have "0 \<le> c_fmod s ?P" using c_fmod_range[of s ?P] assms(2) by simp
  then have "instantaneous_phase (Fin a) (Fin r) i = Fin (c_fmod s ?P)"
    by (simp add: instantaneous_phase_unwrapped assms(1) two_pi_eq fp_mod_def Let_def)
  then have "(square_sample (Fin a) (Fin r) i = AMPLITUDE) = (c_fmod s ?P < ?H)"
    by (simp add: square_sample_def np_pi_def AMPLITUDE_eq fp_uminus_def)
  then show ?thesis using c by (simp only:)
qed

lemma count_map_filter:
  "count_list (map f xs) v = length (filter (\<lambda>x. f x = v) xs)"
  by (induction xs) auto

lemma scale_err:
  fixes H :: rat
  assumes "1 \<le> H" "\<bar>s - (r + x)\<bar> \<le> e"
  shows "\<bar>s / H - (r / H + x / H)\<bar> \<le> e"
proof -
  have H: "0 < H" using assms(1) by linarith
  have "s / H - (r / H + x / H) = (s - (r + x)) / H"
    by (simp add: diff_divide_distrib add_divide_distrib)
  then have "\<bar>s / H - (r / H + x / H)\<bar> = \<bar>s - (r + x)\<bar> / H"
    using H by (simp only: abs_divide abs_of_pos)
  also have "\<dots> \<le> \<bar>s - (r + x)\<bar> / 1"
    using assms(1) by (intro divide_left_mono) simp_all
  finally show ?thesis using assms(2) by simp
qed

lemma scale_period:
  fixes H :: rat
  assumes "0 < H" "\<bar>x - 2 * H\<bar> + 4 * e * H \<le> y"
  shows "\<bar>x / H - 2\<bar> + 4 * e \<le> y / H"
proof -
  have "x / H - 2 = (x - 2 * H) / H" using assms(1) by (simp add: diff_divide_distrib)
  then have "\<bar>x / H - 2\<bar> = \<bar>x - 2 * H\<bar> / H"
    using assms(1) by (simp only: abs_divide abs_of_pos)
  moreover have "4 * e = (4 * e * H) / H" using assms(1) by simp
  ultimately have "\<bar>x / H - 2\<bar> + 4 * e = (\<bar>x - 2 * H\<bar> + 4 * e * H) / H"
    by (simp only: add_divide_distrib)
  also have "\<dots> \<le> y / H" using assms by (intro divide_right_mono) simp_all
  finally show ?thesis .
qed

lemma high_count:
  assumes N: "N \<le> 2 ^ 40" and a: "64 * \<bar>a * of_nat N - 44100\<bar> \<le> 63 * a"
    and r: "0 \<le> r" "r < 884279719003555 / 140737488355328"
  defines "h \<equiv> count_list (fst (generate_square_wave (Fin a) (Fin r) N)) AMPLITUDE"
  shows "2 * h \<le> N + 2 \<and> N \<le> 2 * h + 2"
proof (cases "N = 0")
  case True
  then show ?thesis by (simp add: h_def generate_square_wave_eq)
next
  case False
  let ?P = "884279719003555 / 140737488355328 :: rat"
  let ?H = "884279719003555 / 281474976710656 :: rat"
  define k :: rat where "k = of_nat N"
  have k1: "1 \<le> k" using False by (simp add: k_def)
  have "(of_nat N :: rat) \<le> of_nat (2 ^ 40)" using N by (simp only: of_nat_le_iff)
  then have k2: "k \<le> 2 ^ 40" by (simp add: k_def)
  define ak where "ak = a * k"
  define t where "t = \<bar>ak - 44100\<bar>"
  have ab: "64 * t \<le> 63 * a" using a by (simp only: t_def ak_def k_def)
  have "ak - 44100 \<le> t" "- (ak - 44100) \<le> t"
    unfolding t_def by (rule abs_ge_self, rule abs_ge_minus_self)
  then have ak: "44100 - 63 / 64 * a \<le> ak" "ak \<le> 44100 + 63 / 64 * a"
    using ab by simp_all
  have a0: "0 < a"
  proof (rule ccontr)
    assume n: "\<not> 0 < a"
    then have "a * k \<le> 0" using k1 by (intro mult_nonpos_nonneg) simp_all
    then show False using ak n by (simp add: ak_def)
  qed
  have "a * 1 \<le> a * k" using a0 k1 by (intro mult_left_mono) simp_all
  then have a1: "a \<le> 2822400" using ak(2) by (simp add: ak_def)
  have "a * k \<le> a * 2 ^ 40" using a0 k2 by (intro mult_left_mono) simp_all
  then have a2: "44100 \<le> a * (1099511627776 + 63 / 64)" using ak(1) by (simp add: ak_def algebra_simps)
  then have a3: "2 powi (- 25) \<le> a" by simp
  from increment_bounds[OF a3 a1] obtain d where d: "phase_increment (Fin a) = Fin d"
    "?P / 44100 * (1 - 2 powi (- 53)) ^ 3 * a \<le> d"
    "d \<le> ?P / 44100 * (1 + 2 powi (- 53)) ^ 3 * a" by blast
  have d0: "0 \<le> d" using d(2) a0 by (simp add: power3_eq_cube)
  define kd where "kd = k * d"
  have "k * (?P / 44100 * (1 - 2 powi (- 53)) ^ 3 * a) \<le> k * d"
    "k * d \<le> k * (?P / 44100 * (1 + 2 powi (- 53)) ^ 3 * a)"
    using d(2,3) k1 by (simp_all only: mult_left_mono)
  moreover have "k * (?P / 44100 * (1 - 2 powi (- 53)) ^ 3 * a) = ?P / 44100 * (1 - 2 powi (- 53)) ^ 3 * ak"
    "k * (?P / 44100 * (1 + 2 powi (- 53)) ^ 3 * a) = ?P / 44100 * (1 + 2 powi (- 53)) ^ 3 * ak"
    by (simp_all add: ak_def)
  ultimately have kd: "?P / 44100 * (1 - 2 powi (- 53)) ^ 3 * ak \<le> kd"
    "kd \<le> ?P / 44100 * (1 + 2 powi (- 53)) ^ 3 * ak"
    by (simp_all only: kd_def)
  have up: "kd - ?P + 4 * 2 powi (- 49) * ?H \<le> d"
    using kd(2) ak(2) d(2) a2 by (simp add: power3_eq_cube)
  have down: "- (kd - ?P) + 4 * 2 powi (- 49) * ?H \<le> d"
    using kd(1) ak(1) d(2) a2 by (simp add: power3_eq_cube)
  have per: "\<bar>kd - 2 * ?H\<bar> + 4 * 2 powi (- 49) * ?H \<le> d"
  proof -
    have "\<bar>kd - ?P\<bar> \<le> d - 4 * 2 powi (- 49) * ?H"
      using up down by (intro abs_leI) linarith+
    then show ?thesis by simp
  qed
  have last: "of_nat i * d \<le> 7" if "i < N" for i
  proof -
    have "i \<le> N - 1" using that by simp
    then have "(of_nat i :: rat) \<le> of_nat (N - 1)" by (simp only: of_nat_le_iff)
    then have "of_nat i * d \<le> of_nat (N - 1) * d" using d0 by (intro mult_right_mono) simp_all
    also have "of_nat (N - 1) * d = kd - d" using False by (simp add: kd_def k_def of_nat_diff algebra_simps)
    also have "\<dots> \<le> ?P" using up by simp
    finally show ?thesis by simp
  qed
  have i53: "i < 2 ^ 53" if "i < N" for i
  proof -
    have "i < 2 ^ 40" using that N by simp
    also have "(2::nat) ^ 40 < 2 ^ 53" by simp
    finally show ?thesis .
  qed
  have r7: "r < 7" using r(2) by simp
  have "\<exists>s. i < N \<longrightarrow> unwrapped_phase (Fin a) (Fin r) (int i) = Fin s
           \<and> 0 \<le> s \<and> \<bar>s - (r + of_nat i * d)\<bar> \<le> 2 powi (- 49)" for i
    using sample_phase[OF d(1) d0 i53 last r(1) r7, of i] by blast
  then obtain sf where sf: "\<And>i. i < N \<Longrightarrow>
        unwrapped_phase (Fin a) (Fin r) (int i) = Fin (sf i)
        \<and> 0 \<le> sf i \<and> \<bar>sf i - (r + of_nat i * d)\<bar> \<le> 2 powi (- 49)"
    by metis
  have high: "(square_sample (Fin a) (Fin r) (int i) = AMPLITUDE) = even \<lfloor>sf i / ?H\<rfloor>" if "i < N" for i
    using sf[OF that] by (intro sample_high) simp_all
  have "h = length (filter (\<lambda>i. square_sample (Fin a) (Fin r) (int i) = AMPLITUDE) [0..<N])"
    by (simp only: h_def generate_square_wave_eq fst_conv count_map_filter)
  also have "\<dots> = length (filter (\<lambda>i. even \<lfloor>sf i / ?H\<rfloor>) [0..<N])"
    using high by (intro arg_cong[where f = length] filter_cong) simp_all
  finally have h: "h = length (filter (\<lambda>i. even \<lfloor>sf i / ?H\<rfloor>) [0..<N])" .
  have approx: "\<bar>sf i / ?H - (r / ?H + of_nat i * (d / ?H))\<bar> \<le> 2 powi (- 49)" if "i < N" for i
  proof -
    have "\<bar>sf i / ?H - (r / ?H + (of_nat i * d) / ?H)\<bar> \<le> 2 powi (- 49)"
      using sf[OF that] by (intro scale_err) simp_all
    then show ?thesis by (simp only: times_divide_eq_right)
  qed
  have period: "\<bar>of_nat N * (d / ?H) - 2\<bar> + 4 * 2 powi (- 49) \<le> d / ?H"
  proof -
    have "\<bar>kd / ?H - 2\<bar> + 4 * 2 powi (- 49) \<le> d / ?H"
      using per by (intro scale_period) simp_all
    then show ?thesis by (simp only: kd_def k_def times_divide_eq_right)
  qed
  have e: "(0::rat) \<le> 2 powi (- 49)" by simp
  show ?thesis
    unfolding h by (rule half_count[OF approx period e])
qed


text \<open>
  C9, amended. Let \<open>N \<le> 2\<^sup>4\<^sup>0\<close> be a whole number of samples that differs from the period
  \<open>44100 / f\<close> by at most \<open>63 / 64\<close> of a sample (\<open>64 |f N - 44100| \<le> 63 f\<close>): the period itself
  when it is whole, and otherwise the whole number below or above it, as for all the notes
  of the key maps. From a starting phase in \<open>[0, 2\<pi>)\<close>, which is where the program keeps the
  phase, every one of the \<open>N\<close> samples is \<open>+0.5\<close> or \<open>-0.5\<close>, and the two counts differ by at
  most two, so each is within one sample of \<open>N / 2\<close>.
\<close>

theorem duty_cycle:
  assumes "N \<le> 2 ^ 40" and "64 * \<bar>a * of_nat N - of_int SAMPLE_RATE\<bar> \<le> 63 * a"
    and "0 \<le> r" and "r < 884279719003555 / 140737488355328"
  shows "count_list (fst (generate_square_wave (Fin a) (Fin r) N)) AMPLITUDE
           + count_list (fst (generate_square_wave (Fin a) (Fin r) N)) (fp_uminus AMPLITUDE) = N
       \<and> count_list (fst (generate_square_wave (Fin a) (Fin r) N)) AMPLITUDE
           \<le> count_list (fst (generate_square_wave (Fin a) (Fin r) N)) (fp_uminus AMPLITUDE) + 2
       \<and> count_list (fst (generate_square_wave (Fin a) (Fin r) N)) (fp_uminus AMPLITUDE)
           \<le> count_list (fst (generate_square_wave (Fin a) (Fin r) N)) AMPLITUDE + 2"
proof -
  define W where "W = fst (generate_square_wave (Fin a) (Fin r) N)"
  have a: "64 * \<bar>a * of_nat N - 44100\<bar> \<le> 63 * a" using assms(2) by (simp add: SAMPLE_RATE_def)
  have h: "2 * count_list W AMPLITUDE \<le> N + 2 \<and> N \<le> 2 * count_list W AMPLITUDE + 2"
    unfolding W_def by (rule high_count[OF assms(1) a assms(3,4)])
  have "y = AMPLITUDE \<or> y = fp_uminus AMPLITUDE" if "y \<in> set W" for y
    using that by (auto simp: W_def generate_square_wave_eq square_sample_def)
  moreover have "AMPLITUDE \<noteq> fp_uminus AMPLITUDE" by (simp add: AMPLITUDE_eq fp_uminus_def)
  ultimately have "count_list W AMPLITUDE + count_list W (fp_uminus AMPLITUDE) = length W"
    by (intro count_two_values)
  then have s: "count_list W AMPLITUDE + count_list W (fp_uminus AMPLITUDE) = N"
    by (simp add: W_def)
  show ?thesis unfolding W_def[symmetric] using h s by linarith
qed


theorem duty_cycle_witness:
  "(113::nat) \<le> 2 ^ 40 \<and> 64 * \<bar>(392::rat) * of_nat 113 - of_int SAMPLE_RATE\<bar> \<le> 63 * 392
   \<and> (0::rat) \<le> 0 \<and> (0::rat) < 884279719003555 / 140737488355328
   \<and> count_list (fst (generate_square_wave (Fin 392) (Fin 0) 113)) AMPLITUDE
       + count_list (fst (generate_square_wave (Fin 392) (Fin 0) 113)) (fp_uminus AMPLITUDE) = 113
   \<and> count_list (fst (generate_square_wave (Fin 392) (Fin 0) 113)) AMPLITUDE
       \<le> count_list (fst (generate_square_wave (Fin 392) (Fin 0) 113)) (fp_uminus AMPLITUDE) + 2
   \<and> count_list (fst (generate_square_wave (Fin 392) (Fin 0) 113)) (fp_uminus AMPLITUDE)
       \<le> count_list (fst (generate_square_wave (Fin 392) (Fin 0) 113)) AMPLITUDE + 2"
proof -
  have p: "(113::nat) \<le> 2 ^ 40" "64 * \<bar>(392::rat) * of_nat 113 - of_int SAMPLE_RATE\<bar> \<le> 63 * 392"
    "(0::rat) \<le> 0" "(0::rat) < 884279719003555 / 140737488355328"
    by (simp_all add: SAMPLE_RATE_def)
  show ?thesis using duty_cycle[OF p] p by blast
qed

subsection \<open>Where the bound ends\<close>

text \<open>Rounding is monotone.\<close>

lemma round_half_even_mono:
  assumes "x \<le> y"
  shows "round_half_even x \<le> round_half_even y"
proof (cases "\<lfloor>x\<rfloor> = \<lfloor>y\<rfloor>")
  case True
  then show ?thesis using assms by (auto simp: round_half_even_def Let_def)
next
  case False
  have "\<lfloor>x\<rfloor> \<le> \<lfloor>y\<rfloor>" using assms by (rule floor_mono)
  then have "\<lfloor>x\<rfloor> + 1 \<le> \<lfloor>y\<rfloor>" using False by simp
  then show ?thesis
    using round_half_even_cases[of x] round_half_even_cases[of y] by auto
qed

lemma ilog2_mono:
  assumes "0 < x" "x \<le> y"
  shows "ilog2 x \<le> ilog2 y"
proof -
  have y: "0 < y" using assms by simp
  have "(2::rat) powi ilog2 x < 2 powi (ilog2 y + 1)"
    using ilog2_bounds[OF assms(1)] ilog2_bounds[OF y] assms(2) by linarith
  then have "ilog2 x < ilog2 y + 1" by (rule powi_less_cancel)
  then show ?thesis by simp
qed

lemma round_to_mono:
  assumes x: "0 \<le> x" "x \<le> y" and p: "0 < p"
    and rx: "round_to p emin emax x = Fin a" and ry: "round_to p emin emax y = Fin b"
  shows "a \<le> b"
proof (cases "x = 0")
  case True
  have "fp_nonneg (round_to p emin emax y)" using x by (intro round_to_nonneg) simp
  then have "0 \<le> b" by (simp add: ry fp_nonneg_def)
  moreover have "a = 0" using rx True by simp
  ultimately show ?thesis by simp
next
  case False
  then have x0: "0 < x" and y0: "0 < y" using x by simp_all
  define ex where "ex = max (ilog2 x) emin"
  define ey where "ey = max (ilog2 y) emin"
  define qx :: rat where "qx = 2 powi (ex - p + 1)"
  define qy :: rat where "qy = 2 powi (ey - p + 1)"
  have q0: "0 < qx" "0 < qy" by (simp_all add: qx_def qy_def)
  have a: "a = of_int (round_half_even (x / qx)) * qx"
    using rx x0 by (simp add: round_to_def Let_def ex_def qx_def split: if_splits)
  have b: "b = of_int (round_half_even (y / qy)) * qy"
    using ry y0 by (simp add: round_to_def Let_def ey_def qy_def split: if_splits)
  have exy: "ex \<le> ey" using ilog2_mono[OF x0 x(2)] by (simp add: ex_def ey_def)
  show ?thesis
  proof (cases "ex = ey")
    case True
    then have q: "qy = qx" by (simp add: qx_def qy_def)
    have "x / qx \<le> y / qx" using x(2) q0(1) by (simp add: divide_right_mono)
    then have "round_half_even (x / qx) \<le> round_half_even (y / qx)" by (rule round_half_even_mono)
    then have "(of_int (round_half_even (x / qx)) :: rat) \<le> of_int (round_half_even (y / qx))"
      by (simp only: of_int_le_iff)
    then show ?thesis unfolding a b q using q0(1) by (intro mult_right_mono) simp_all
  next
    case False
    then have lt: "ex + 1 \<le> ey" using exy by simp
    then have ey: "ey = ilog2 y" by (simp add: ey_def ex_def max_def split: if_splits)
    have p1: "(of_int (2 ^ nat (p - 1)) :: rat) = 2 powi (p - 1)" using p by (intro pow2_nat) simp
    have p2: "(of_int (2 ^ nat p) :: rat) = 2 powi p" using p by (intro pow2_nat) simp
    have "(2::rat) powi (p - 1) * qy = 2 powi ey"
      unfolding qy_def powi2_add[symmetric] by simp
    moreover have "2 powi ey \<le> y" using ilog2_bounds[OF y0] by (simp add: ey)
    ultimately have "of_int (2 ^ nat (p - 1)) * qy \<le> y" by (simp only: p1)
    then have "of_int (2 ^ nat (p - 1)) \<le> y / qy" using q0(2) by (simp add: pos_le_divide_eq)
    then have "2 ^ nat (p - 1) \<le> round_half_even (y / qy)"
      using round_half_even_bounds[of "2 ^ nat (p - 1)" "y / qy" "\<lceil>y / qy\<rceil>"] by (simp add: le_of_int_ceiling)
    then have "(of_int (2 ^ nat (p - 1)) :: rat) \<le> of_int (round_half_even (y / qy))"
      by (simp only: of_int_le_iff)
    then have "of_int (2 ^ nat (p - 1)) * qy \<le> b"
      unfolding b using q0(2) by (intro mult_right_mono) simp_all
    then have lower: "2 powi ey \<le> b" using \<open>(2::rat) powi (p - 1) * qy = 2 powi ey\<close> by (simp only: p1)
    have px: "(2::rat) powi p * qx = 2 powi (ex + 1)"
      unfolding qx_def powi2_add[symmetric] by simp
    have "ilog2 x + 1 \<le> ex + 1" by (simp add: ex_def)
    then have "(2::rat) powi (ilog2 x + 1) \<le> 2 powi (ex + 1)" by (intro power_int_increasing) simp_all
    then have "x \<le> 2 powi (ex + 1)" using ilog2_bounds[OF x0] by linarith
    then have "x \<le> of_int (2 ^ nat p) * qx" by (simp only: p2 px)
    then have "x / qx \<le> of_int (2 ^ nat p)" using q0(1) by (simp add: pos_divide_le_eq)
    then have "round_half_even (x / qx) \<le> 2 ^ nat p"
      using round_half_even_bounds[of "\<lfloor>x / qx\<rfloor>" "x / qx" "2 ^ nat p"] by simp
    then have "(of_int (round_half_even (x / qx)) :: rat) \<le> of_int (2 ^ nat p)"
      by (simp only: of_int_le_iff)
    then have "a \<le> of_int (2 ^ nat p) * qx"
      unfolding a using q0(1) by (intro mult_right_mono) simp_all
    then have "a \<le> 2 powi (ex + 1)" by (simp only: p2 px)
    also have "\<dots> \<le> 2 powi ey" using lt by (intro power_int_increasing) simp_all
    finally show ?thesis using lower by simp
  qed
qed

lemma f64_mono:
  assumes "0 \<le> x" "x \<le> y" "f64 x = Fin a" "f64 y = Fin b"
  shows "a \<le> b"
  using assms unfolding f64_def by (intro round_to_mono[of x y 53 "- 1022" 1023 a b]) simp_all

text \<open>The phase before the reduction does not decrease along a block.\<close>

lemma unwrapped_value:
  assumes d: "phase_increment (Fin a) = Fin d" "0 \<le> d" and i: "i < 2 ^ 53"
    and u: "unwrapped_phase (Fin a) (Fin r) (int i) = Fin x"
  shows "\<exists>t. f64 (of_nat i * d) = Fin t \<and> f64 (r + t) = Fin x"
proof -
  have fi: "f64_of_int (int i) = Fin (of_nat i)" using i by (rule f64_of_nat)
  have "fp_nonneg (f64 (of_nat i * d))" using d(2) by (intro f64_nonneg) simp
  then show ?thesis
  proof (cases rule: fp_nonneg_cases)
    case (1 t)
    then show ?thesis using u by (simp add: unwrapped_phase_def d(1) fi fp_mul_Fin)
  next
    case 2
    then show ?thesis using u by (simp add: unwrapped_phase_def d(1) fi fp_mul_Fin)
  qed
qed

lemma unwrapped_mono:
  assumes d: "phase_increment (Fin a) = Fin d" "0 \<le> d" and r: "0 \<le> r"
    and ij: "i \<le> j" "j < 2 ^ 53"
    and ui: "unwrapped_phase (Fin a) (Fin r) (int i) = Fin x"
    and uj: "unwrapped_phase (Fin a) (Fin r) (int j) = Fin y"
  shows "0 \<le> x \<and> x \<le> y"
proof -
  have i: "i < 2 ^ 53" using ij by simp
  from unwrapped_value[OF d i ui] obtain t where t: "f64 (of_nat i * d) = Fin t" "f64 (r + t) = Fin x"
    by blast
  from unwrapped_value[OF d ij(2) uj] obtain v where v: "f64 (of_nat j * d) = Fin v" "f64 (r + v) = Fin y"
    by blast
  have "(of_nat i :: rat) \<le> of_nat j" using ij(1) by (simp only: of_nat_le_iff)
  then have le: "of_nat i * d \<le> of_nat j * d" using d(2) by (intro mult_right_mono) simp_all
  have i0: "0 \<le> of_nat i * d" using d(2) by simp
  have tv: "t \<le> v" using i0 le t(1) v(1) by (rule f64_mono)
  have "fp_nonneg (f64 (of_nat i * d))" using i0 by (rule f64_nonneg)
  then have t0: "0 \<le> t" by (simp add: t(1) fp_nonneg_def)
  have rt: "0 \<le> r + t" "r + t \<le> r + v" using r t0 tv by simp_all
  have "x \<le> y" using rt t(2) v(2) by (rule f64_mono)
  moreover have "fp_nonneg (f64 (r + t))" using rt(1) by (rule f64_nonneg)
  then have "0 \<le> x" by (simp add: t(2) fp_nonneg_def)
  ultimately show ?thesis by simp
qed

text \<open>Between two samples whose phases lie in the same half period, every sample has
  their sign.\<close>

lemma run_class:
  assumes d: "phase_increment (Fin a) = Fin d" "0 \<le> d" and r: "0 \<le> r"
    and lo: "unwrapped_phase (Fin a) (Fin r) (int l) = Fin xl"
    and hi: "unwrapped_phase (Fin a) (Fin r) (int u) = Fin xu"
    and m: "\<lfloor>xl / (884279719003555 / 281474976710656)\<rfloor> = m" "\<lfloor>xu / (884279719003555 / 281474976710656)\<rfloor> = m"
    and i: "l \<le> i" "i \<le> u" "u < 2 ^ 53"
    and fin: "unwrapped_phase (Fin a) (Fin r) (int i) = Fin s"
  shows "(square_sample (Fin a) (Fin r) (int i) = AMPLITUDE) = even m"
proof -
  let ?H = "884279719003555 / 281474976710656 :: rat"
  have iu: "i < 2 ^ 53" using i by simp
  have a: "0 \<le> xl \<and> xl \<le> s" by (rule unwrapped_mono[OF d r i(1) iu lo fin])
  have b: "0 \<le> s \<and> s \<le> xu" by (rule unwrapped_mono[OF d r i(2,3) fin hi])
  have "xl / ?H \<le> s / ?H" "s / ?H \<le> xu / ?H" using a b by (simp_all add: divide_right_mono)
  then have "\<lfloor>xl / ?H\<rfloor> \<le> \<lfloor>s / ?H\<rfloor>" "\<lfloor>s / ?H\<rfloor> \<le> \<lfloor>xu / ?H\<rfloor>" by (simp_all only: floor_mono)
  then have "\<lfloor>s / ?H\<rfloor> = m" using m by simp
  then show ?thesis using sample_high[OF fin] b by simp
qed

lemma count_interval:
  "length (filter (\<lambda>i. a \<le> i \<and> i < b) [0..<n]) = min n b - a"
  by (induction n) auto

text \<open>
  A period whose phases cross two half-period boundaries: the first samples up to \<open>l1\<close>, the
  samples from \<open>i1 = l1 + 1\<close> to \<open>l2\<close> and the samples from \<open>i2 = l2 + 1\<close> on lie in three
  consecutive half periods, the first of odd index. The \<open>+0.5\<close> samples are those of the
  middle one.
\<close>

lemma three_runs:
  assumes d: "phase_increment (Fin a) = Fin d" "0 \<le> d" and r: "0 \<le> r" "r < 7"
    and N: "N \<le> 2 ^ 53" "of_nat N * d \<le> 7"
    and i: "l1 + 1 = i1" "i1 \<le> l2" "l2 + 1 = i2" "i2 \<le> l3" "l3 + 1 = N"
    and p0: "unwrapped_phase (Fin a) (Fin r) (int 0) = Fin x0" "\<lfloor>x0 / (884279719003555 / 281474976710656)\<rfloor> = m"
    and p1: "unwrapped_phase (Fin a) (Fin r) (int l1) = Fin x1" "\<lfloor>x1 / (884279719003555 / 281474976710656)\<rfloor> = m"
    and p2: "unwrapped_phase (Fin a) (Fin r) (int i1) = Fin x2" "\<lfloor>x2 / (884279719003555 / 281474976710656)\<rfloor> = m2"
    and p3: "unwrapped_phase (Fin a) (Fin r) (int l2) = Fin x3" "\<lfloor>x3 / (884279719003555 / 281474976710656)\<rfloor> = m2"
    and p4: "unwrapped_phase (Fin a) (Fin r) (int i2) = Fin x4" "\<lfloor>x4 / (884279719003555 / 281474976710656)\<rfloor> = m3"
    and p5: "unwrapped_phase (Fin a) (Fin r) (int l3) = Fin x5" "\<lfloor>x5 / (884279719003555 / 281474976710656)\<rfloor> = m3"
    and m: "odd m" "even m2" "odd m3"
  shows "count_list (fst (generate_square_wave (Fin a) (Fin r) N)) AMPLITUDE = i2 - i1
       \<and> count_list (fst (generate_square_wave (Fin a) (Fin r) N)) (fp_uminus AMPLITUDE) = N - (i2 - i1)"
proof -
  define W where "W = fst (generate_square_wave (Fin a) (Fin r) N)"
  have l53: "l1 < 2 ^ 53" "l2 < 2 ^ 53" "l3 < 2 ^ 53" using i N(1) by simp_all
  have cls: "(square_sample (Fin a) (Fin r) (int j) = AMPLITUDE) = (i1 \<le> j \<and> j < i2)" if jN: "j < N" for j
  proof -
    have j53: "j < 2 ^ 53" using jN N(1) by simp
    have "(of_nat j :: rat) \<le> of_nat N" using jN by (simp only: of_nat_le_iff less_imp_le)
    then have "of_nat j * d \<le> of_nat N * d" using d(2) by (intro mult_right_mono) simp_all
    then have "of_nat j * d \<le> 7" using N(2) by simp
    from sample_phase[OF d j53 this r] obtain s where s: "unwrapped_phase (Fin a) (Fin r) (int j) = Fin s"
      by blast
    consider "j \<le> l1" | "i1 \<le> j" "j \<le> l2" | "i2 \<le> j" "j \<le> l3" using jN i by linarith
    then show ?thesis
    proof cases
      case 1
      have "(square_sample (Fin a) (Fin r) (int j) = AMPLITUDE) = even m"
        by (rule run_class[OF d r(1) p0(1) p1(1) p0(2) p1(2) _ 1 l53(1) s]) simp
      then show ?thesis using m 1 i by simp
    next
      case 2
      have "(square_sample (Fin a) (Fin r) (int j) = AMPLITUDE) = even m2"
        by (rule run_class[OF d r(1) p2(1) p3(1) p2(2) p3(2) 2 l53(2) s])
      then show ?thesis using m 2 i by simp
    next
      case 3
      have "(square_sample (Fin a) (Fin r) (int j) = AMPLITUDE) = even m3"
        by (rule run_class[OF d r(1) p4(1) p5(1) p4(2) p5(2) 3 l53(3) s])
      then show ?thesis using m 3 i by simp
    qed
  qed
  have "count_list W AMPLITUDE = length (filter (\<lambda>j. square_sample (Fin a) (Fin r) (int j) = AMPLITUDE) [0..<N])"
    by (simp only: W_def generate_square_wave_eq fst_conv count_map_filter)
  also have "\<dots> = length (filter (\<lambda>j. i1 \<le> j \<and> j < i2) [0..<N])"
    using cls by (intro arg_cong[where f = length] filter_cong) simp_all
  also have "\<dots> = i2 - i1" using i by (simp add: count_interval)
  finally have h: "count_list W AMPLITUDE = i2 - i1" .
  have "y = AMPLITUDE \<or> y = fp_uminus AMPLITUDE" if "y \<in> set W" for y
    using that by (auto simp: W_def generate_square_wave_eq square_sample_def)
  moreover have "AMPLITUDE \<noteq> fp_uminus AMPLITUDE" by (simp add: AMPLITUDE_eq fp_uminus_def)
  ultimately have "count_list W AMPLITUDE + count_list W (fp_uminus AMPLITUDE) = length W"
    by (intro count_two_values)
  then have "count_list W (fp_uminus AMPLITUDE) = N - (i2 - i1)" using h by (simp add: W_def)
  then show ?thesis using h by (simp only: W_def)
qed


text \<open>
  A period of \<open>2\<^sup>5\<^sup>3\<close> samples (\<open>f = 44100 / 2\<^sup>5\<^sup>3\<close>) from the phase 4.3125. The increment is
  \<open>\<pi> / 2\<^sup>5\<^sup>2\<close>, less than the distance of two floats near \<open>2\<pi>\<close>, so the phases advance in steps of
  rounding. Sample 2825056776516563 is the first with a phase \<open>\<ge> 2\<pi>\<close> and sample
  7328656403887057 the first with a phase \<open>\<ge> 3\<pi>\<close>; the samples between them are the \<open>+0.5\<close>
  samples.
\<close>

lemma klp_a: "fp_mul f64 (Fin (11025 / 2251799813685248)) (Fin 2) = Fin (11025 / 1125899906842624)"
  by (simp add: fp_mul_Fin f64_eval[where e="-37"] round_half_even_def Let_def)

lemma klp_b: "fp_mul f64 (Fin (11025 / 1125899906842624)) (Fin (884279719003555 / 281474976710656)) = Fin (595042962769421 / 19342813113834066795298816)"
  by (simp add: fp_mul_Fin f64_eval[where e="-35"] round_half_even_def Let_def)

lemma klp_inc: "fp_div f64 (Fin (595042962769421 / 19342813113834066795298816)) (Fin 44100) = Fin (884279719003555 / 1267650600228229401496703205376)"
  by (simp add: fp_div_Fin f64_eval[where e="-51"] round_half_even_def Let_def)

lemma inc_lp: "phase_increment (Fin (11025 / 2251799813685248)) = Fin (884279719003555 / 1267650600228229401496703205376)"
  by (simp only: phase_increment_def f64_ints np_pi_def klp_a klp_b klp_inc)

lemma klp_m0: "fp_mul f64 (Fin 0) (Fin (884279719003555 / 1267650600228229401496703205376)) = Fin 0"
  by (simp add: fp_mul_Fin f64_0)

lemma klp_s0: "fp_add f64 (Fin (69 / 16)) (Fin 0) = Fin (69 / 16)"
  by (simp add: f64_eval[where e=2] round_half_even_def Let_def)

lemma ptlp_0: "unwrapped_phase (Fin (11025 / 2251799813685248)) (Fin (69 / 16)) (int 0) = Fin (69 / 16)"
proof -
  have "f64_of_int (int 0) = Fin 0" using f64_of_nat[of 0] by simp
  then show ?thesis by (simp only: unwrapped_phase_def inc_lp klp_m0 klp_s0)
qed

lemma fllp_0: "\<lfloor>(69 / 16) / (884279719003555 / 281474976710656)\<rfloor> = 1"
  by (simp add: floor_eq_iff)

lemma klp_m2825056776516562: "fp_mul f64 (Fin 2825056776516562) (Fin (884279719003555 / 1267650600228229401496703205376)) = Fin (8875177615078493 / 4503599627370496)"
  by (simp add: fp_mul_Fin f64_eval[where e=0] round_half_even_def Let_def)

lemma klp_s2825056776516562: "fp_add f64 (Fin (69 / 16)) (Fin (8875177615078493 / 4503599627370496)) = Fin (7074237752028439 / 1125899906842624)"
  by (simp add: f64_eval[where e=2] round_half_even_def Let_def)

lemma ptlp_2825056776516562: "unwrapped_phase (Fin (11025 / 2251799813685248)) (Fin (69 / 16)) (int 2825056776516562) = Fin (7074237752028439 / 1125899906842624)"
proof -
  have "f64_of_int (int 2825056776516562) = Fin 2825056776516562" using f64_of_nat[of 2825056776516562] by simp
  then show ?thesis by (simp only: unwrapped_phase_def inc_lp klp_m2825056776516562 klp_s2825056776516562)
qed

lemma fllp_2825056776516562: "\<lfloor>(7074237752028439 / 1125899906842624) / (884279719003555 / 281474976710656)\<rfloor> = 1"
  by (simp add: floor_eq_iff)

lemma klp_m2825056776516563: "fp_mul f64 (Fin 2825056776516563) (Fin (884279719003555 / 1267650600228229401496703205376)) = Fin (277349300471203 / 140737488355328)"
  by (simp add: fp_mul_Fin f64_eval[where e=0] round_half_even_def Let_def)

lemma klp_s2825056776516563: "fp_add f64 (Fin (69 / 16)) (Fin (277349300471203 / 140737488355328)) = Fin (884279719003555 / 140737488355328)"
  by (simp add: f64_eval[where e=2] round_half_even_def Let_def)

lemma ptlp_2825056776516563: "unwrapped_phase (Fin (11025 / 2251799813685248)) (Fin (69 / 16)) (int 2825056776516563) = Fin (884279719003555 / 140737488355328)"
proof -
  have "f64_of_int (int 2825056776516563) = Fin 2825056776516563" using f64_of_nat[of 2825056776516563] by simp
  then show ?thesis by (simp only: unwrapped_phase_def inc_lp klp_m2825056776516563 klp_s2825056776516563)
qed

lemma fllp_2825056776516563: "\<lfloor>(884279719003555 / 140737488355328) / (884279719003555 / 281474976710656)\<rfloor> = 2"
  by (simp add: floor_eq_iff)

lemma klp_m7328656403887056: "fp_mul f64 (Fin 7328656403887056) (Fin (884279719003555 / 1267650600228229401496703205376)) = Fin (2877956639891921 / 562949953421312)"
  by (simp add: fp_mul_Fin f64_eval[where e=2] round_half_even_def Let_def)

lemma klp_s7328656403887056: "fp_add f64 (Fin (69 / 16)) (Fin (2877956639891921 / 562949953421312)) = Fin (5305678314021329 / 562949953421312)"
  by (simp add: f64_eval[where e=3] round_half_even_def Let_def)

lemma ptlp_7328656403887056: "unwrapped_phase (Fin (11025 / 2251799813685248)) (Fin (69 / 16)) (int 7328656403887056) = Fin (5305678314021329 / 562949953421312)"
proof -
  have "f64_of_int (int 7328656403887056) = Fin 7328656403887056" using f64_of_nat[of 7328656403887056] by simp
  then show ?thesis by (simp only: unwrapped_phase_def inc_lp klp_m7328656403887056 klp_s7328656403887056)
qed

lemma fllp_7328656403887056: "\<lfloor>(5305678314021329 / 562949953421312) / (884279719003555 / 281474976710656)\<rfloor> = 2"
  by (simp add: floor_eq_iff)

lemma klp_m7328656403887057: "fp_mul f64 (Fin 7328656403887057) (Fin (884279719003555 / 1267650600228229401496703205376)) = Fin (5755913279783843 / 1125899906842624)"
  by (simp add: fp_mul_Fin f64_eval[where e=2] round_half_even_def Let_def)

lemma klp_s7328656403887057: "fp_add f64 (Fin (69 / 16)) (Fin (5755913279783843 / 1125899906842624)) = Fin (2652839157010665 / 281474976710656)"
  by (simp add: f64_eval[where e=3] round_half_even_def Let_def)

lemma ptlp_7328656403887057: "unwrapped_phase (Fin (11025 / 2251799813685248)) (Fin (69 / 16)) (int 7328656403887057) = Fin (2652839157010665 / 281474976710656)"
proof -
  have "f64_of_int (int 7328656403887057) = Fin 7328656403887057" using f64_of_nat[of 7328656403887057] by simp
  then show ?thesis by (simp only: unwrapped_phase_def inc_lp klp_m7328656403887057 klp_s7328656403887057)
qed

lemma fllp_7328656403887057: "\<lfloor>(2652839157010665 / 281474976710656) / (884279719003555 / 281474976710656)\<rfloor> = 3"
  by (simp add: floor_eq_iff)

lemma klp_m9007199254740991: "fp_mul f64 (Fin 9007199254740991) (Fin (884279719003555 / 1267650600228229401496703205376)) = Fin (7074237752028439 / 1125899906842624)"
  by (simp add: fp_mul_Fin f64_eval[where e=2] round_half_even_def Let_def)

lemma klp_s9007199254740991: "fp_add f64 (Fin (69 / 16)) (Fin (7074237752028439 / 1125899906842624)) = Fin (1491210137535907 / 140737488355328)"
  by (simp add: f64_eval[where e=3] round_half_even_def Let_def)

lemma ptlp_9007199254740991: "unwrapped_phase (Fin (11025 / 2251799813685248)) (Fin (69 / 16)) (int 9007199254740991) = Fin (1491210137535907 / 140737488355328)"
proof -
  have "f64_of_int (int 9007199254740991) = Fin 9007199254740991" using f64_of_nat[of 9007199254740991] by simp
  then show ?thesis by (simp only: unwrapped_phase_def inc_lp klp_m9007199254740991 klp_s9007199254740991)
qed

lemma fllp_9007199254740991: "\<lfloor>(1491210137535907 / 140737488355328) / (884279719003555 / 281474976710656)\<rfloor> = 3"
  by (simp add: floor_eq_iff)


lemma long_period:
  "count_list (fst (generate_square_wave (Fin (44100 / 2 ^ 53)) (Fin (69 / 16)) (2 ^ 53))) AMPLITUDE = 2 ^ 52 - 2
   \<and> count_list (fst (generate_square_wave (Fin (44100 / 2 ^ 53)) (Fin (69 / 16)) (2 ^ 53))) (fp_uminus AMPLITUDE) = 2 ^ 52 + 2"
proof -
  let ?d = "884279719003555 / 1267650600228229401496703205376 :: rat"
  have r: "(0::rat) \<le> 69 / 16" "(69 / 16 :: rat) < 7" and d: "0 \<le> ?d" by simp_all
  have N: "(9007199254740992::nat) \<le> 2 ^ 53" "of_nat 9007199254740992 * ?d \<le> 7" by simp_all
  have i: "(2825056776516562::nat) + 1 = 2825056776516563" "(2825056776516563::nat) \<le> 7328656403887056"
    "(7328656403887056::nat) + 1 = 7328656403887057" "(7328656403887057::nat) \<le> 9007199254740991"
    "(9007199254740991::nat) + 1 = 9007199254740992" by simp_all
  have m: "odd (1::int)" "even (2::int)" "odd (3::int)" by simp_all
  have "count_list (fst (generate_square_wave (Fin (11025 / 2251799813685248)) (Fin (69 / 16)) 9007199254740992)) AMPLITUDE
          = 7328656403887057 - 2825056776516563
       \<and> count_list (fst (generate_square_wave (Fin (11025 / 2251799813685248)) (Fin (69 / 16)) 9007199254740992)) (fp_uminus AMPLITUDE)
          = 9007199254740992 - (7328656403887057 - 2825056776516563)"
    by (rule three_runs[OF inc_lp d r N i ptlp_0 fllp_0 ptlp_2825056776516562 fllp_2825056776516562
          ptlp_2825056776516563 fllp_2825056776516563 ptlp_7328656403887056 fllp_7328656403887056
          ptlp_7328656403887057 fllp_7328656403887057 ptlp_9007199254740991 fllp_9007199254740991 m])
  then show ?thesis by simp
qed


text \<open>
  A period just above 100 samples (\<open>f = 441 - 2\<^sup>-\<^sup>4\<^sup>4\<close>, the float below 441, whose period is
  \<open>100 + 1.3 \<times> 10\<^sup>-\<^sup>1\<^sup>4\<close> samples), rendered for 101 samples from the phase 6.22035345410779.
  Sample 1 has a phase one float below \<open>2\<pi>\<close> and sample 51 the phase \<open>3\<pi>\<close>: the \<open>+0.5\<close> samples
  are the samples 2 to 50.
\<close>

lemma knp_a: "fp_mul f64 (Fin (7758154045587455 / 17592186044416)) (Fin 2) = Fin (7758154045587455 / 8796093022208)"
  by (simp add: fp_mul_Fin f64_eval[where e=9] round_half_even_def Let_def)

lemma knp_b: "fp_mul f64 (Fin (7758154045587455 / 8796093022208)) (Fin (884279719003555 / 281474976710656)) = Fin (3046619969379435 / 1099511627776)"
  by (simp add: fp_mul_Fin f64_eval[where e=11] round_half_even_def Let_def)

lemma knp_inc: "fp_div f64 (Fin (3046619969379435 / 1099511627776)) (Fin 44100) = Fin (4527512161298201 / 72057594037927936)"
  by (simp add: fp_div_Fin f64_eval[where e="-4"] round_half_even_def Let_def)

lemma inc_np: "phase_increment (Fin (7758154045587455 / 17592186044416)) = Fin (4527512161298201 / 72057594037927936)"
  by (simp only: phase_increment_def f64_ints np_pi_def knp_a knp_b knp_inc)

lemma knp_m0: "fp_mul f64 (Fin 0) (Fin (4527512161298201 / 72057594037927936)) = Fin 0"
  by (simp add: fp_mul_Fin f64_0)

lemma knp_s0: "fp_add f64 (Fin (7003495374508155 / 1125899906842624)) (Fin 0) = Fin (7003495374508155 / 1125899906842624)"
  by (simp add: f64_eval[where e=2] round_half_even_def Let_def)

lemma ptnp_0: "unwrapped_phase (Fin (7758154045587455 / 17592186044416)) (Fin (7003495374508155 / 1125899906842624)) (int 0) = Fin (7003495374508155 / 1125899906842624)"
proof -
  have "f64_of_int (int 0) = Fin 0" using f64_of_nat[of 0] by simp
  then show ?thesis by (simp only: unwrapped_phase_def inc_np knp_m0 knp_s0)
qed

lemma flnp_0: "\<lfloor>(7003495374508155 / 1125899906842624) / (884279719003555 / 281474976710656)\<rfloor> = 1"
  by (simp add: floor_eq_iff)

lemma knp_m1: "fp_mul f64 (Fin 1) (Fin (4527512161298201 / 72057594037927936)) = Fin (4527512161298201 / 72057594037927936)"
  by (simp add: fp_mul_Fin f64_eval[where e="-4"] round_half_even_def Let_def)

lemma knp_s1: "fp_add f64 (Fin (7003495374508155 / 1125899906842624)) (Fin (4527512161298201 / 72057594037927936)) = Fin (7074237752028439 / 1125899906842624)"
  by (simp add: f64_eval[where e=2] round_half_even_def Let_def)

lemma ptnp_1: "unwrapped_phase (Fin (7758154045587455 / 17592186044416)) (Fin (7003495374508155 / 1125899906842624)) (int 1) = Fin (7074237752028439 / 1125899906842624)"
proof -
  have "f64_of_int (int 1) = Fin 1" using f64_of_nat[of 1] by simp
  then show ?thesis by (simp only: unwrapped_phase_def inc_np knp_m1 knp_s1)
qed

lemma flnp_1: "\<lfloor>(7074237752028439 / 1125899906842624) / (884279719003555 / 281474976710656)\<rfloor> = 1"
  by (simp add: floor_eq_iff)

lemma knp_m2: "fp_mul f64 (Fin 2) (Fin (4527512161298201 / 72057594037927936)) = Fin (4527512161298201 / 36028797018963968)"
  by (simp add: fp_mul_Fin f64_eval[where e="-3"] round_half_even_def Let_def)

lemma knp_s2: "fp_add f64 (Fin (7003495374508155 / 1125899906842624)) (Fin (4527512161298201 / 36028797018963968)) = Fin (1786245032387181 / 281474976710656)"
  by (simp add: f64_eval[where e=2] round_half_even_def Let_def)

lemma ptnp_2: "unwrapped_phase (Fin (7758154045587455 / 17592186044416)) (Fin (7003495374508155 / 1125899906842624)) (int 2) = Fin (1786245032387181 / 281474976710656)"
proof -
  have "f64_of_int (int 2) = Fin 2" using f64_of_nat[of 2] by simp
  then show ?thesis by (simp only: unwrapped_phase_def inc_np knp_m2 knp_s2)
qed

lemma flnp_2: "\<lfloor>(1786245032387181 / 281474976710656) / (884279719003555 / 281474976710656)\<rfloor> = 2"
  by (simp add: floor_eq_iff)

lemma knp_m50: "fp_mul f64 (Fin 50) (Fin (4527512161298201 / 72057594037927936)) = Fin (7074237752028439 / 2251799813685248)"
  by (simp add: fp_mul_Fin f64_eval[where e=1] round_half_even_def Let_def)

lemma knp_s50: "fp_add f64 (Fin (7003495374508155 / 1125899906842624)) (Fin (7074237752028439 / 2251799813685248)) = Fin (5270307125261187 / 562949953421312)"
  by (simp add: f64_eval[where e=3] round_half_even_def Let_def)

lemma ptnp_50: "unwrapped_phase (Fin (7758154045587455 / 17592186044416)) (Fin (7003495374508155 / 1125899906842624)) (int 50) = Fin (5270307125261187 / 562949953421312)"
proof -
  have "f64_of_int (int 50) = Fin 50" using f64_of_nat[of 50] by simp
  then show ?thesis by (simp only: unwrapped_phase_def inc_np knp_m50 knp_s50)
qed

lemma flnp_50: "\<lfloor>(5270307125261187 / 562949953421312) / (884279719003555 / 281474976710656)\<rfloor> = 2"
  by (simp add: floor_eq_iff)

lemma knp_m51: "fp_mul f64 (Fin 51) (Fin (4527512161298201 / 72057594037927936)) = Fin (450982656691813 / 140737488355328)"
  by (simp add: fp_mul_Fin f64_eval[where e=1] round_half_even_def Let_def)

lemma knp_s51: "fp_add f64 (Fin (7003495374508155 / 1125899906842624)) (Fin (450982656691813 / 140737488355328)) = Fin (2652839157010665 / 281474976710656)"
  by (simp add: f64_eval[where e=3] round_half_even_def Let_def)

lemma ptnp_51: "unwrapped_phase (Fin (7758154045587455 / 17592186044416)) (Fin (7003495374508155 / 1125899906842624)) (int 51) = Fin (2652839157010665 / 281474976710656)"
proof -
  have "f64_of_int (int 51) = Fin 51" using f64_of_nat[of 51] by simp
  then show ?thesis by (simp only: unwrapped_phase_def inc_np knp_m51 knp_s51)
qed

lemma flnp_51: "\<lfloor>(2652839157010665 / 281474976710656) / (884279719003555 / 281474976710656)\<rfloor> = 3"
  by (simp add: floor_eq_iff)

lemma knp_m100: "fp_mul f64 (Fin 100) (Fin (4527512161298201 / 72057594037927936)) = Fin (7074237752028439 / 1125899906842624)"
  by (simp add: fp_mul_Fin f64_eval[where e=2] round_half_even_def Let_def)

lemma knp_s100: "fp_add f64 (Fin (7003495374508155 / 1125899906842624)) (Fin (7074237752028439 / 1125899906842624)) = Fin (7038866563268297 / 562949953421312)"
  by (simp add: f64_eval[where e=3] round_half_even_def Let_def)

lemma ptnp_100: "unwrapped_phase (Fin (7758154045587455 / 17592186044416)) (Fin (7003495374508155 / 1125899906842624)) (int 100) = Fin (7038866563268297 / 562949953421312)"
proof -
  have "f64_of_int (int 100) = Fin 100" using f64_of_nat[of 100] by simp
  then show ?thesis by (simp only: unwrapped_phase_def inc_np knp_m100 knp_s100)
qed

lemma flnp_100: "\<lfloor>(7038866563268297 / 562949953421312) / (884279719003555 / 281474976710656)\<rfloor> = 3"
  by (simp add: floor_eq_iff)

lemma near_period:
  "count_list (fst (generate_square_wave (Fin (441 - 1 / 2 ^ 44)) (Fin (7003495374508155 / 1125899906842624)) 101)) AMPLITUDE = 49
   \<and> count_list (fst (generate_square_wave (Fin (441 - 1 / 2 ^ 44)) (Fin (7003495374508155 / 1125899906842624)) 101)) (fp_uminus AMPLITUDE) = 52"
proof -
  let ?d = "4527512161298201 / 72057594037927936 :: rat"
  have r: "(0::rat) \<le> 7003495374508155 / 1125899906842624" "(7003495374508155 / 1125899906842624 :: rat) < 7"
    and d: "0 \<le> ?d" by simp_all
  have N: "(101::nat) \<le> 2 ^ 53" "of_nat 101 * ?d \<le> 7" by simp_all
  have i: "(1::nat) + 1 = 2" "(2::nat) \<le> 50" "(50::nat) + 1 = 51" "(51::nat) \<le> 100" "(100::nat) + 1 = 101"
    by simp_all
  have m: "odd (1::int)" "even (2::int)" "odd (3::int)" by simp_all
  have "count_list (fst (generate_square_wave (Fin (7758154045587455 / 17592186044416)) (Fin (7003495374508155 / 1125899906842624)) 101)) AMPLITUDE
          = 51 - 2
       \<and> count_list (fst (generate_square_wave (Fin (7758154045587455 / 17592186044416)) (Fin (7003495374508155 / 1125899906842624)) 101)) (fp_uminus AMPLITUDE)
          = 101 - (51 - 2)"
    by (rule three_runs[OF inc_np d r N i ptnp_0 flnp_0 ptnp_1 flnp_1
          ptnp_2 flnp_2 ptnp_50 flnp_50 ptnp_51 flnp_51 ptnp_100 flnp_100 m])
  then show ?thesis by simp
qed

text \<open>
  C9, as stated for every frequency, fails. At \<open>f = 44100 / 2\<^sup>5\<^sup>3\<close>, from the phase 4.3125, the
  \<open>2\<^sup>5\<^sup>3\<close> samples of one period hold \<open>2\<^sup>5\<^sup>2 - 2\<close> samples \<open>+0.5\<close> and \<open>2\<^sup>5\<^sup>2 + 2\<close> samples
  \<open>-0.5\<close>: two samples off an even split. And when the samples spanning a period are taken
  to be the next whole number above a period that is not whole, the 101 samples at
  \<open>f = 441 - 2\<^sup>-\<^sup>4\<^sup>4\<close> from the phase 6.22035345410779 hold 49 samples \<open>+0.5\<close> and 52 samples
  \<open>-0.5\<close>. Both starting phases are in \<open>[0, 2\<pi>)\<close>.
\<close>

theorem duty_cycle_counterexample:
  "count_list (fst (generate_square_wave (Fin (44100 / 2 ^ 53)) (Fin (69 / 16)) (2 ^ 53))) AMPLITUDE = 2 ^ 52 - 2
   \<and> count_list (fst (generate_square_wave (Fin (44100 / 2 ^ 53)) (Fin (69 / 16)) (2 ^ 53))) (fp_uminus AMPLITUDE) = 2 ^ 52 + 2
   \<and> count_list (fst (generate_square_wave (Fin (441 - 1 / 2 ^ 44)) (Fin (7003495374508155 / 1125899906842624)) 101)) AMPLITUDE = 49
   \<and> count_list (fst (generate_square_wave (Fin (441 - 1 / 2 ^ 44)) (Fin (7003495374508155 / 1125899906842624)) 101)) (fp_uminus AMPLITUDE) = 52"
  using long_period near_period by (simp only: simp_thms)

text \<open>
  Outside \<open>[0, 2\<pi>)\<close> the starting phase matters as well. The period of 100 samples at 441 Hz,
  from the phase \<open>2\<^sup>6\<^sup>0\<close>: there the floats are 256 apart, every sum \<open>phase + i \<Delta>\<close> rounds back
  to the phase, and all samples are \<open>-0.5\<close>.
\<close>

lemma count_single_value:
  assumes "\<And>y. y \<in> set xs \<Longrightarrow> y = b" "a \<noteq> b"
  shows "count_list xs a = 0 \<and> count_list xs b = length xs"
  using assms by (induction xs) auto


lemma absorbed_increment:
  assumes "0 \<le> t" "t \<le> 8"
  shows "f64 (2 ^ 60 + t) = Fin (2 ^ 60)"
proof -
  have "of_int (2 ^ 52) \<le> (2 ^ 60 + t) / 256" "(2 ^ 60 + t) / 256 < of_int (2 ^ 52) + 1 / 2"
    using assms by simp_all
  then have "round_half_even ((2 ^ 60 + t) / 256) = 2 ^ 52" by (rule round_half_even_near)
  moreover have "2 powi 60 \<le> \<bar>2 ^ 60 + t\<bar>" "\<bar>2 ^ 60 + t\<bar> < 2 powi (60 + 1)"
    using assms by simp_all
  ultimately show ?thesis
    by (simp add: f64_eval[where e=60] Let_def)
qed

lemma k441_a: "fp_mul f64 (Fin 441) (Fin 2) = Fin 882"
  by (simp add: fp_mul_Fin f64_eval[where e=9] round_half_even_def Let_def)

lemma k441_b: "fp_mul f64 (Fin 882) (Fin (884279719003555 / 281474976710656)) = Fin (6093239938758871 / 2199023255552)"
  by (simp add: fp_mul_Fin f64_eval[where e=11] round_half_even_def Let_def)

lemma k441_inc: "fp_div f64 (Fin (6093239938758871 / 2199023255552)) (Fin 44100) = Fin (4527512161298201 / 72057594037927936)"
  by (simp add: fp_div_Fin f64_eval[where e="-4"] round_half_even_def Let_def)

lemma k441_p: "fp_mod f64 (Fin 1152921504606846976) (Fin (884279719003555 / 140737488355328)) = Fin (715288363618063 / 140737488355328)"
  by (simp add: fp_mod_def c_fmod_def c_trunc_def)

lemma inc_441: "phase_increment (Fin 441) = Fin (4527512161298201 / 72057594037927936)"
  by (simp only: phase_increment_def f64_ints np_pi_def k441_a k441_b k441_inc)

lemma phase_441:
  assumes "i < 100"
  shows "instantaneous_phase (Fin 441) (Fin (2 ^ 60)) (int i) = Fin (715288363618063 / 140737488355328)"
proof -
  let ?d = "4527512161298201 / 72057594037927936 :: rat"
  have fi: "f64_of_int (int i) = Fin (of_nat i)" using assms by (intro f64_of_nat) simp
  have "(of_nat i :: rat) \<le> of_nat 100" using assms by (simp only: of_nat_le_iff less_imp_le)
  then have "of_nat i * ?d \<le> of_nat 100 * ?d" by (intro mult_right_mono) simp_all
  then have "0 \<le> of_nat i * ?d" "of_nat i * ?d \<le> of_int 8" by simp_all
  then obtain t where t: "f64 (of_nat i * ?d) = Fin t" "0 \<le> t" "t \<le> 8"
    using f64_fin[of "of_nat i * ?d" 8] by auto
  have "fp_add f64 (Fin (2 ^ 60)) (fp_mul f64 (f64_of_int (int i)) (phase_increment (Fin 441))) = Fin (2 ^ 60)"
    by (simp only: inc_441 fi fp_mul_Fin t(1) fp_add.simps absorbed_increment[OF t(2,3)])
  then show ?thesis
    using k441_p by (simp add: instantaneous_phase_def two_pi_eq)
qed



lemma large_phase:
  "count_list (fst (generate_square_wave (Fin 441) (Fin (2 ^ 60)) 100)) AMPLITUDE = 0
   \<and> count_list (fst (generate_square_wave (Fin 441) (Fin (2 ^ 60)) 100)) (fp_uminus AMPLITUDE) = 100"
proof -
  have "y = fp_uminus AMPLITUDE" if "y \<in> set (fst (generate_square_wave (Fin 441) (Fin (2 ^ 60)) 100))" for y
  proof -
    from that obtain i where i: "i < 100" "y = square_sample (Fin 441) (Fin (2 ^ 60)) (int i)"
      by (auto simp: generate_square_wave_eq)
    show ?thesis
      unfolding i(2) square_sample_def phase_441[OF i(1)] by (simp add: np_pi_def)
  qed
  moreover have "AMPLITUDE \<noteq> fp_uminus AMPLITUDE" by (simp add: AMPLITUDE_eq fp_uminus_def)
  ultimately have "count_list (fst (generate_square_wave (Fin 441) (Fin (2 ^ 60)) 100)) AMPLITUDE = 0
     \<and> count_list (fst (generate_square_wave (Fin 441) (Fin (2 ^ 60)) 100)) (fp_uminus AMPLITUDE)
         = length (fst (generate_square_wave (Fin 441) (Fin (2 ^ 60)) 100))"
    by (intro count_single_value)
  then show ?thesis by (simp only: length_wave)
qed

end
